theory Spec2Isabelle
  imports Main
begin

section \<open>Strings\<close>

text \<open>
  TypeScript strings are modelled as \<open>string\<close> (lists of 8-bit characters), so the
  model covers texts in the Latin-1 range. \<open>endsWith\<close> is \<open>String.prototype.endsWith\<close>
  for the one-character terminator the session uses.
\<close>

abbreviation newline :: char where
  "newline \<equiv> CHR 0x0A"

definition endsWith :: "string \<Rightarrow> char \<Rightarrow> bool" where
  "endsWith m c = (m \<noteq> [] \<and> last m = c)"

section \<open>The server session (src/flowr/server-session.ts)\<close>

text \<open>
  A promise is an entry of an explicit store: \<open>new Promise(resolve => ...)\<close> allocates
  a pending entry, calling its \<open>resolve\<close> settles it once. The executor of
  \<open>awaitResponse\<close> takes \<open>resolve\<close> only: its promise is resolved or stays pending.
\<close>

datatype promise = Pending | Resolved string | Rejected string

definition resolve :: "nat \<Rightarrow> string \<Rightarrow> promise list \<Rightarrow> promise list" where
  "resolve p v ps = (if p < length ps \<and> ps ! p = Pending then ps[p := Resolved v] else ps)"

text \<open>
  The socket is Node's \<open>net.Socket\<close>, which is not code of the repository. The model
  keeps what the session can observe of it: whether \<open>destroy()\<close> has been called on
  it, and the text written to it while it was open.
\<close>

record net_Socket =
  destroyed :: bool
  written :: "string list"

definition socket_destroy :: "net_Socket \<Rightarrow> net_Socket" where
  "socket_destroy k = k\<lparr>destroyed := True\<rparr>"

definition socket_write :: "string \<Rightarrow> net_Socket \<Rightarrow> net_Socket" where
  "socket_write d k = (if destroyed k then k else k\<lparr>written := written k @ [d]\<rparr>)"

record FlowrServerSession =
  outputChannel :: "string list"
  socket :: net_Socket
  idCounter :: nat
  currentMessageBuffer :: string
  onceOnLineReceived :: "nat option"
  promises :: "promise list"

text \<open>The constructor: logs, opens the socket, registers the two handlers.\<close>

definition newFlowrServerSession :: "string \<Rightarrow> FlowrServerSession" where
  "newFlowrServerSession hostport =
     \<lparr> outputChannel = [''Connecting to FlowR server at '' @ hostport],
       socket = \<lparr> destroyed = False, written = [] \<rparr>,
       idCounter = 0,
       currentMessageBuffer = [],
       onceOnLineReceived = None,
       promises = [] \<rparr>"

definition destroy :: "FlowrServerSession \<Rightarrow> FlowrServerSession" where
  "destroy s = s\<lparr>socket := socket_destroy (socket s)\<rparr>"

definition handleResponse :: "string \<Rightarrow> FlowrServerSession \<Rightarrow> FlowrServerSession" where
  "handleResponse message s =
     (if \<not> endsWith message newline
      then s\<lparr>currentMessageBuffer := currentMessageBuffer s @ message\<rparr>
      else
        let message' = currentMessageBuffer s @ message;
            s1 = s\<lparr>currentMessageBuffer := [],
                   outputChannel := outputChannel s @ [''Received: '' @ message']\<rparr>;
            s2 = (case onceOnLineReceived s1 of
                    None \<Rightarrow> s1
                  | Some p \<Rightarrow> s1\<lparr>promises := resolve p message' (promises s1)\<rparr>)
        in s2\<lparr>onceOnLineReceived := None\<rparr>)"

text \<open>\<open>sendCommand\<close> takes the command already serialised (\<open>JSON.stringify(command)\<close>).\<close>

definition sendCommand :: "string \<Rightarrow> FlowrServerSession \<Rightarrow> FlowrServerSession" where
  "sendCommand command s =
     s\<lparr>outputChannel := outputChannel s @ [''Sending: '' @ command],
       socket := socket_write (command @ [newline]) (socket s)\<rparr>"

text \<open>\<open>awaitResponse\<close> returns the new promise and stores its \<open>resolve\<close> in the slot.\<close>

definition awaitResponse :: "FlowrServerSession \<Rightarrow> nat \<times> FlowrServerSession" where
  "awaitResponse s =
     (let p = length (promises s)
      in (p, s\<lparr>promises := promises s @ [Pending], onceOnLineReceived := Some p\<rparr>))"

text \<open>
  \<open>sendCommandWithResponse\<close> up to its \<open>await\<close>: the result is the promise it awaits.
  Its own future settles when that promise does; \<open>requestFuture\<close> reads it, with
  \<open>parses\<close> telling whether \<open>JSON.parse\<close> accepts the line.
\<close>

definition sendCommandWithResponse :: "string \<Rightarrow> FlowrServerSession \<Rightarrow> nat \<times> FlowrServerSession" where
  "sendCommandWithResponse command s =
     (let (response, s1) = awaitResponse s
      in (response, sendCommand command s1))"

definition requestFuture :: "(string \<Rightarrow> bool) \<Rightarrow> nat \<Rightarrow> FlowrServerSession \<Rightarrow> promise" where
  "requestFuture parses response s =
     (if response < length (promises s)
      then (case promises s ! response of
              Pending \<Rightarrow> Pending
            | Resolved line \<Rightarrow> if parses line then Resolved line else Rejected ''SyntaxError''
            | Rejected e \<Rightarrow> Rejected e)
      else Pending)"

text \<open>The handler of the socket's error event only logs.\<close>

definition onSocketError :: "string \<Rightarrow> FlowrServerSession \<Rightarrow> FlowrServerSession" where
  "onSocketError e s = s\<lparr>outputChannel := outputChannel s @ [''flowR server error: '' @ e]\<rparr>"

text \<open>
  What can happen to a session, one event at a time. A destroyed socket emits no more
  data events (Node: \<open>destroy()\<close> ends all I/O activity on the socket).
\<close>

datatype event =
    Data string
  | SocketError string
  | AwaitResponse
  | SendCommand string
  | SendCommandWithResponse string
  | Destroy

fun step :: "event \<Rightarrow> FlowrServerSession \<Rightarrow> FlowrServerSession" where
  "step (Data chunk) s = (if destroyed (socket s) then s else handleResponse chunk s)"
| "step (SocketError e) s = onSocketError e s"
| "step AwaitResponse s = snd (awaitResponse s)"
| "step (SendCommand c) s = sendCommand c s"
| "step (SendCommandWithResponse c) s = snd (sendCommandWithResponse c s)"
| "step Destroy s = destroy s"

definition run :: "event list \<Rightarrow> FlowrServerSession \<Rightarrow> FlowrServerSession" where
  "run evs s = fold step evs s"

text \<open>Feeding the chunks of the data events to the frame reassembly, in order.\<close>

definition feed :: "string list \<Rightarrow> FlowrServerSession \<Rightarrow> FlowrServerSession" where
  "feed chunks s = fold handleResponse chunks s"

text \<open>A frame: one newline, at the end.\<close>

definition isFrame :: "string \<Rightarrow> bool" where
  "isFrame f = (f \<noteq> [] \<and> last f = newline \<and> newline \<notin> set (butlast f))"

text \<open>
  The module-level handle of src/extension.ts: \<open>flowrSession\<close> refers to a session
  object of either class, or is undefined. Session objects live in a store, so that a
  destroyed session can still be looked at after the handle has dropped it. The class
  \<open>FlowrInternalSession\<close> is not among the sources: its state is a type parameter and
  its \<open>destroy\<close> a parameter of \<open>destroySession\<close>.
\<close>

datatype 'i session = Internal 'i | Server FlowrServerSession

fun session_destroy :: "('i \<Rightarrow> 'i) \<Rightarrow> 'i session \<Rightarrow> 'i session" where
  "session_destroy destroyInternal (Internal i) = Internal (destroyInternal i)"
| "session_destroy destroyInternal (Server s) = Server (destroy s)"

record 'i extension =
  sessions :: "'i session list"
  flowrSession :: "nat option"

definition destroySession :: "('i \<Rightarrow> 'i) \<Rightarrow> 'i extension \<Rightarrow> 'i extension" where
  "destroySession destroyInternal g =
     (let g1 = (case flowrSession g of
                  None \<Rightarrow> g
                | Some r \<Rightarrow>
                    if r < length (sessions g)
                    then g\<lparr>sessions := (sessions g)[r := session_destroy destroyInternal (sessions g ! r)]\<rparr>
                    else g)
      in g1\<lparr>flowrSession := None\<rparr>)"

section \<open>Location reconciliation in retrieveSlice\<close>

type_synonym NodeId = string

record SourcePosition =
  line :: int
  column :: int

record SourceRange =
  start :: SourcePosition
  end' :: SourcePosition

text \<open>
  The normalized AST, as far as \<open>retrieveSlice\<close> reads it: a node has \<open>info.id\<close>, an
  optional \<open>location\<close> and children. \<open>visitAst\<close> is flowR's visitor: it calls the
  function on a node, then visits the children in order.
\<close>

datatype RNode = RNode (info_id: NodeId) (location: "SourceRange option") (children: "RNode list")

fun visitAst :: "RNode \<Rightarrow> (RNode \<Rightarrow> 'a \<Rightarrow> 'a) \<Rightarrow> 'a \<Rightarrow> 'a" where
  "visitAst (RNode i l cs) f acc = fold (\<lambda>c. visitAst c f) cs (f (RNode i l cs) acc)"

text \<open>Lines 87 to 92: the map from identifiers to locations.\<close>

definition idToLocation :: "RNode \<Rightarrow> (NodeId \<rightharpoonup> SourceRange)" where
  "idToLocation ast =
     visitAst ast (\<lambda>n m. case location n of Some l \<Rightarrow> m(info_id n \<mapsto> l) | None \<Rightarrow> m) Map.empty"

text \<open>
  The comparator of line 104: \<open>a || b\<close> is \<open>a\<close> unless \<open>a\<close> is zero. \<open>Array.prototype.sort\<close>
  is a stable sort; it is modelled as insertion sort with the comparator.
\<close>

definition compareStart :: "SourceRange \<Rightarrow> SourceRange \<Rightarrow> int" where
  "compareStart a b =
     (let d = line (start a) - line (start b)
      in if d \<noteq> 0 then d else column (start a) - column (start b))"

fun insertBy :: "('a \<Rightarrow> 'a \<Rightarrow> int) \<Rightarrow> 'a \<Rightarrow> 'a list \<Rightarrow> 'a list" where
  "insertBy cmp x [] = [x]"
| "insertBy cmp x (y # ys) = (if cmp x y \<le> 0 then x # y # ys else y # insertBy cmp x ys)"

definition sortBy :: "('a \<Rightarrow> 'a \<Rightarrow> int) \<Rightarrow> 'a list \<Rightarrow> 'a list" where
  "sortBy cmp xs = foldr (insertBy cmp) xs []"

text \<open>
  Lines 100 to 105: look every identifier of the slice up, keep the entries with a
  location (the cast after the filter is \<open>the\<close>), sort by start.
\<close>

definition sliceElements :: "(NodeId \<rightharpoonup> SourceRange) \<Rightarrow> NodeId list \<Rightarrow> (NodeId \<times> SourceRange) list" where
  "sliceElements m result =
     sortBy (\<lambda>a b. compareStart (snd a) (snd b))
       (map (\<lambda>e. (fst e, the (snd e)))
          (filter (\<lambda>e. snd e \<noteq> None)
             (map (\<lambda>i. (i, m i)) result)))"

definition retrieveSlice_elements :: "RNode \<Rightarrow> NodeId list \<Rightarrow> (NodeId \<times> SourceRange) list" where
  "retrieveSlice_elements ast result = sliceElements (idToLocation ast) result"

text \<open>The order the claim names: ascending by start line, then start column.\<close>

definition startLe :: "SourceRange \<Rightarrow> SourceRange \<Rightarrow> bool" where
  "startLe a b =
     (line (start a) < line (start b)
      \<or> (line (start a) = line (start b) \<and> column (start a) \<le> column (start b)))"

fun nodes :: "RNode \<Rightarrow> RNode list" where
  "nodes (RNode i l cs) = RNode i l cs # concat (map nodes cs)"

section \<open>The result cache (RotaryBuffer of ../utils)\<close>

text \<open>
  Modelled from the spec: the class \<open>RotaryBuffer\<close> (imported from \<open>../utils\<close>, which is
  not among the sources). The spec describes a fixed-capacity ring buffer over a fixed
  array with index arithmetic: \<open>push(entry)\<close> appends and overwrites the oldest entry
  once the capacity is exceeded, \<open>get(predicate)\<close> returns the most recently pushed
  entry matching the predicate, else undefined, and promotes nothing.
  A slot never written is \<open>None\<close>; \<open>index\<close> is the slot the next push writes.
\<close>

record 'a RotaryBuffer =
  buffer :: "'a option list"
  index :: nat

text \<open>Modelled from the spec: the constructor of \<open>RotaryBuffer\<close>, a fixed array of the given capacity.\<close>

definition newRotaryBuffer :: "nat \<Rightarrow> 'a RotaryBuffer" where
  "newRotaryBuffer capacity = \<lparr> buffer = replicate capacity None, index = 0 \<rparr>"

text \<open>
  Modelled from the spec: \<open>RotaryBuffer.push\<close>, which appends and, once the capacity is
  exceeded, overwrites the oldest entry.
\<close>

definition push :: "'a \<Rightarrow> 'a RotaryBuffer \<Rightarrow> 'a RotaryBuffer" where
  "push item b =
     \<lparr> buffer = (buffer b)[index b := Some item],
       index = (index b + 1) mod length (buffer b) \<rparr>"

text \<open>
  Modelled from the spec: the entries a \<open>RotaryBuffer\<close> holds, oldest first (the slots
  from \<open>index\<close> on, then those before it).
\<close>

definition entries :: "'a RotaryBuffer \<Rightarrow> 'a list" where
  "entries b = List.map_filter id (drop (index b) (buffer b) @ take (index b) (buffer b))"

text \<open>
  Modelled from the spec: \<open>RotaryBuffer.get\<close>, which returns the most recently pushed
  entry matching the predicate, else undefined.
\<close>

definition get :: "('a \<Rightarrow> bool) \<Rightarrow> 'a RotaryBuffer \<Rightarrow> 'a option" where
  "get item b = find item (rev (entries b))"

section \<open>The dependency view (src/unnamed/part_000)\<close>

subsection \<open>The fingerprint\<close>

text \<open>
  \<open>\s\<close> and \<open>trim()\<close> take the same characters: ECMAScript's white space and line
  terminators; in the Latin-1 range these are TAB, LF, VT, FF, CR, SP and NBSP.
  The line terminators (for \<open>^\<close>, \<open>$\<close> and \<open>.\<close>) are LF and CR.
\<close>

definition isLineTerminator :: "char \<Rightarrow> bool" where
  "isLineTerminator c = (c = CHR 0x0A \<or> c = CHR 0x0D)"

definition isWhiteSpace :: "char \<Rightarrow> bool" where
  "isWhiteSpace c =
     (c = CHR 0x09 \<or> c = CHR 0x0A \<or> c = CHR 0x0B \<or> c = CHR 0x0C \<or> c = CHR 0x0D
      \<or> c = CHR 0x20 \<or> c = CHR 0xA0)"

definition trim :: "string \<Rightarrow> string" where
  "trim s = rev (dropWhile isWhiteSpace (rev (dropWhile isWhiteSpace s)))"

text \<open>
  \<open>replace(/\s|^\s*#.*$/gm, '')\<close>, scanning left to right. \<open>bol\<close> says whether the
  position is at the start of a line of the input (\<open>^\<close> with the flag \<open>m\<close>: the start
  of the text, or just after a line terminator). At each position the first
  alternative is tried first: a white-space character is one match, and is removed.
  Only if it fails is the second alternative tried; the character at the position
  is then not white space, \<open>\s*\<close> matches nothing, and the alternative matches exactly
  when the position starts a line and holds a \<open>#\<close>; \<open>.*$\<close> then takes the rest of the
  line up to its terminator. A character where neither matches is kept.
\<close>

function replaceMatches :: "bool \<Rightarrow> string \<Rightarrow> string" where
  "replaceMatches bol [] = []"
| "replaceMatches bol (c # cs) =
     (if isWhiteSpace c then replaceMatches (isLineTerminator c) cs
      else if bol \<and> c = CHR ''#''
        then replaceMatches False (dropWhile (\<lambda>x. \<not> isLineTerminator x) cs)
      else c # replaceMatches False cs)"
  by pat_completeness auto
termination
  by (relation "measure (\<lambda>(bol, s). length s)") (auto simp: less_Suc_eq_le length_dropWhile_le)

definition textFingerprint :: "string \<Rightarrow> string" where
  "textFingerprint text = replaceMatches True (trim text)"

text \<open>
  The normalization in the words of the spec, to compare the fingerprint with: the
  text without its comment lines (the lines whose first character that is not white
  space is \<open>#\<close>) and without white space.
\<close>

fun splitLines :: "string \<Rightarrow> string list" where
  "splitLines [] = [[]]"
| "splitLines (c # cs) =
     (if isLineTerminator c then [] # splitLines cs
      else (case splitLines cs of l # ls \<Rightarrow> (c # l) # ls | [] \<Rightarrow> [[c]]))"

definition isCommentLine :: "string \<Rightarrow> bool" where
  "isCommentLine l = (case dropWhile isWhiteSpace l of [] \<Rightarrow> False | c # _ \<Rightarrow> c = CHR ''#'')"

definition spec_normalizedText :: "string \<Rightarrow> string" where
  "spec_normalizedText text =
     concat (map (filter (\<lambda>c. \<not> isWhiteSpace c))
               (filter (\<lambda>l. \<not> isCommentLine l) (splitLines text)))"

subsection \<open>refresh\<close>

text \<open>
  The view's fields, and \<open>trace\<close>: what the view did to its collaborators, in program
  order (lines written to the output channel, tree-data events fired, the cache's
  \<open>get\<close> and \<open>push\<close>, the call of \<open>session.retrieveQuery\<close>, which is the remote round
  trip, the timer set for \<open>reveal\<close>) and the assignments of \<open>lastText\<close>.
  The query results are opaque to \<open>refresh\<close>: their types are parameters, and so are
  the two empty results and the text that the log prints of a result's timings.
\<close>

record document =
  languageId :: string
  getText :: string

record ('d, 'l) results =
  dep :: 'd
  loc :: 'l

datatype action =
    AppendLine string
  | Fire
  | SetLastText string
  | CacheGet string
  | CachePush string
  | RetrieveQuery
  | RevealLater

record ('d, 'l) FlowrDependencyTreeView =
  activeDependencies :: 'd
  locationMap :: 'l
  working :: bool
  textBuffer :: "(string \<times> ('d, 'l) results) RotaryBuffer"
  lastText :: string
  trace :: "action list"

record ('d, 'l) constants =
  emptyDependencies :: 'd
  emptyLocationMap :: 'l
  timings :: "('d, 'l) results \<Rightarrow> string"

definition newFlowrDependencyTreeView :: "('d, 'l) constants \<Rightarrow> ('d, 'l) FlowrDependencyTreeView" where
  "newFlowrDependencyTreeView k =
     \<lparr> activeDependencies = emptyDependencies k,
       locationMap = emptyLocationMap k,
       working = False,
       textBuffer = newRotaryBuffer 5,
       lastText = [],
       trace = [] \<rparr>"

definition did :: "action list \<Rightarrow> ('d, 'l) FlowrDependencyTreeView \<Rightarrow> ('d, 'l) FlowrDependencyTreeView" where
  "did as v = v\<lparr>trace := trace v @ as\<rparr>"

text \<open>
  What the world gives when the callback of \<open>withProgress\<close> runs: whether an editor
  is active, what \<open>getFlowrSession\<close> and \<open>retrieveQuery\<close> come back with, and the
  setting \<open>dependencyView.keepOnError\<close>.
\<close>

datatype ('d, 'l) reply =
    QueryResult 'd 'l
  | QueryError
  | QueryRejected string
  | NoSession string

record ('d, 'l) later =
  editorActive :: bool
  reply :: "('d, 'l) reply"
  keepOnError :: bool

datatype ('d, 'l) outcome = Deps "('d, 'l) results" | Error | Thrown string

definition getDependenciesForActiveFile ::
  "('d, 'l) constants \<Rightarrow> ('d, 'l) later \<Rightarrow> ('d, 'l) FlowrDependencyTreeView
     \<Rightarrow> ('d, 'l) outcome \<times> ('d, 'l) FlowrDependencyTreeView" where
  "getDependenciesForActiveFile k env v =
     (if \<not> editorActive env
      then (Deps \<lparr> dep = emptyDependencies k, loc = emptyLocationMap k \<rparr>, v)
      else (case reply env of
              NoSession e \<Rightarrow> (Thrown e, v)
            | QueryRejected e \<Rightarrow> (Thrown e, did [RetrieveQuery] v)
            | QueryError \<Rightarrow>
                (Error,
                 did [RetrieveQuery,
                      AppendLine ''[Dependencies View] Error: Could not retrieve dependencies''] v)
            | QueryResult d l \<Rightarrow>
                (Deps \<lparr> dep = d, loc = l \<rparr>,
                 did [RetrieveQuery,
                      AppendLine (''[Dependencies View] Refreshed! '' @ timings k \<lparr> dep = d, loc = l \<rparr>)] v)))"

text \<open>The \<open>finally\<close> block of \<open>refresh\<close>.\<close>

definition refresh_finally :: "('d, 'l) FlowrDependencyTreeView \<Rightarrow> ('d, 'l) FlowrDependencyTreeView" where
  "refresh_finally v = did [RevealLater] (v\<lparr>working := False\<rparr>)"

text \<open>
  \<open>refresh\<close> runs without interruption up to its \<open>await\<close>. \<open>refresh_start\<close> is that
  part: it either returns (at one of the four places named by \<open>exit\<close>) or suspends on
  \<open>withProgress\<close>, holding the local \<open>text\<close>.
\<close>

datatype exit = WorkingGuard | LanguageCheck | LastTextShortCircuit | CacheHit

datatype ('d, 'l) started =
    Returned exit "('d, 'l) FlowrDependencyTreeView"
  | Suspended "('d, 'l) FlowrDependencyTreeView" string

definition refresh_start ::
  "('d, 'l) constants \<Rightarrow> document option \<Rightarrow> ('d, 'l) FlowrDependencyTreeView \<Rightarrow> ('d, 'l) started" where
  "refresh_start k activeTextEditor v =
     (if working v then Returned WorkingGuard v
      else (case activeTextEditor of
              None \<Rightarrow> Returned LanguageCheck v
            | Some d \<Rightarrow>
                if languageId d \<noteq> ''r'' then Returned LanguageCheck v
                else
                  let text = textFingerprint (getText d)
                  in if text = lastText v then Returned LastTextShortCircuit v
                     else
                       let v1 = did [SetLastText text] (v\<lparr>lastText := text\<rparr>);
                           v2 = did [AppendLine ''Refreshing dependencies''] v1;
                           v3 = v2\<lparr>working := True\<rparr>;
                           v4 = did [CacheGet text] v3
                       in (case get (\<lambda>e. fst e = text) (textBuffer v4) of
                             Some has \<Rightarrow>
                               Returned CacheHit
                                 (refresh_finally
                                    (did [AppendLine (''[Dependencies View] Using cached dependencies ''
                                                      @ timings k (snd has)),
                                          Fire]
                                       (v4\<lparr>activeDependencies := dep (snd has),
                                            locationMap := loc (snd has)\<rparr>)))
                           | None \<Rightarrow> Suspended v4 text)))"

text \<open>
  \<open>refresh_finish\<close> is the rest: the callback of \<open>withProgress\<close> with its \<open>then\<close> and
  \<open>catch\<close>, and the \<open>finally\<close> block.
\<close>

definition refresh_finish ::
  "('d, 'l) constants \<Rightarrow> ('d, 'l) later \<Rightarrow> string \<Rightarrow> ('d, 'l) FlowrDependencyTreeView
     \<Rightarrow> ('d, 'l) FlowrDependencyTreeView" where
  "refresh_finish k env text v =
     (let (res, v1) = getDependenciesForActiveFile k env v;
          v2 = (case res of
                  Error \<Rightarrow>
                    if keepOnError env then v1
                    else did [Fire] (v1\<lparr>activeDependencies := emptyDependencies k,
                                         locationMap := emptyLocationMap k\<rparr>)
                | Deps r \<Rightarrow>
                    did [CachePush text, Fire]
                      (v1\<lparr>activeDependencies := dep r,
                           locationMap := loc r,
                           textBuffer := push (text, r) (textBuffer v1)\<rparr>)
                | Thrown e \<Rightarrow> did [AppendLine (''[Dependencies View] Error: '' @ e)] v1)
      in refresh_finally v2)"

text \<open>A refresh that runs to its end before anything else happens.\<close>

definition refresh ::
  "('d, 'l) constants \<Rightarrow> document option \<Rightarrow> ('d, 'l) later \<Rightarrow> ('d, 'l) FlowrDependencyTreeView
     \<Rightarrow> ('d, 'l) FlowrDependencyTreeView" where
  "refresh k activeTextEditor env v =
     (case refresh_start k activeTextEditor v of
        Returned x v' \<Rightarrow> v'
      | Suspended v' text \<Rightarrow> refresh_finish k env text v')"

definition roundTrips :: "('d, 'l) FlowrDependencyTreeView \<Rightarrow> nat" where
  "roundTrips v = length (filter (\<lambda>a. a = RetrieveQuery) (trace v))"

text \<open>
  The view with its suspended executions of \<open>refresh\<close> (each holds its \<open>text\<close>).
  A trigger calls \<open>refresh\<close>; a suspended execution resumes when its query settles.
\<close>

record ('d, 'l) scheduler =
  view :: "('d, 'l) FlowrDependencyTreeView"
  inFlight :: "string list"

datatype ('d, 'l) occurrence =
    Trigger "document option"
  | Settle nat "('d, 'l) later"

fun occur :: "('d, 'l) constants \<Rightarrow> ('d, 'l) occurrence \<Rightarrow> ('d, 'l) scheduler \<Rightarrow> ('d, 'l) scheduler" where
  "occur k (Trigger activeTextEditor) st =
     (case refresh_start k activeTextEditor (view st) of
        Returned x v \<Rightarrow> st\<lparr>view := v\<rparr>
      | Suspended v text \<Rightarrow> st\<lparr>view := v, inFlight := inFlight st @ [text]\<rparr>)"
| "occur k (Settle i env) st =
     (if i < length (inFlight st)
      then st\<lparr>view := refresh_finish k env (inFlight st ! i) (view st),
              inFlight := take i (inFlight st) @ drop (Suc i) (inFlight st)\<rparr>
      else st)"

definition occurAll :: "('d, 'l) constants \<Rightarrow> ('d, 'l) occurrence list \<Rightarrow> ('d, 'l) scheduler \<Rightarrow> ('d, 'l) scheduler" where
  "occurAll k os st = fold (occur k) os st"

definition newScheduler :: "('d, 'l) constants \<Rightarrow> ('d, 'l) scheduler" where
  "newScheduler k = \<lparr> view = newFlowrDependencyTreeView k, inFlight = [] \<rparr>"

section \<open>Frame reassembly\<close>

lemma handleResponse_buffered:
  "\<not> endsWith c newline \<Longrightarrow> handleResponse c s = s\<lparr>currentMessageBuffer := currentMessageBuffer s @ c\<rparr>"
  by (simp add: handleResponse_def)

lemma handleResponse_after_buffered:
  "endsWith m newline \<Longrightarrow>
     handleResponse m (s\<lparr>currentMessageBuffer := currentMessageBuffer s @ c\<rparr>) = handleResponse (c @ m) s"
  by (simp add: handleResponse_def endsWith_def Let_def split: option.splits)

lemma endsWith_in_set: "endsWith c x \<Longrightarrow> x \<in> set c"
  by (auto simp: endsWith_def)

lemma feed_Nil: "feed [] s = s"
  by (simp add: feed_def)

lemma feed_Cons: "feed (c # cs) s = feed cs (handleResponse c s)"
  by (simp add: feed_def)

lemma feed_append: "feed (cs @ ds) s = feed ds (feed cs s)"
  by (simp add: feed_def)

lemma feed_no_newline:
  "newline \<notin> set (concat cs) \<Longrightarrow>
     feed cs s = s\<lparr>currentMessageBuffer := currentMessageBuffer s @ concat cs\<rparr>"
proof (induction cs arbitrary: s)
  case Nil
  show ?case by (simp add: feed_Nil)
next
  case (Cons c cs)
  from Cons.prems have c: "\<not> endsWith c newline"
    by (auto dest: endsWith_in_set)
  from Cons.prems have "newline \<notin> set (concat cs)" by simp
  from Cons.IH [OF this] c show ?case
    by (simp add: feed_Cons handleResponse_buffered)
qed

lemma frame_split_last:
  assumes "isFrame (c @ r)" and "endsWith c newline"
  shows "r = []"
proof (rule ccontr)
  assume ne: "r \<noteq> []"
  then have "butlast (c @ r) = c @ butlast r"
    by (simp add: butlast_append)
  moreover from assms(2) have "newline \<in> set c"
    by (rule endsWith_in_set)
  ultimately show False using assms(1) by (simp add: isFrame_def)
qed

lemma frame_split_rest:
  assumes "isFrame (c @ r)" and "\<not> endsWith c newline"
  shows "isFrame r"
proof (cases "r = []")
  case True
  with assms show ?thesis by (simp add: isFrame_def endsWith_def)
next
  case False
  then have "butlast (c @ r) = c @ butlast r"
    by (simp add: butlast_append)
  with assms(1) False show ?thesis by (simp add: isFrame_def)
qed

lemma feed_frame:
  "isFrame (concat cs) \<Longrightarrow> feed cs s = handleResponse (concat cs) s"
proof (induction cs arbitrary: s)
  case Nil
  then show ?case by (simp add: isFrame_def)
next
  case (Cons c cs)
  from Cons.prems have fr: "isFrame (c @ concat cs)" by simp
  show ?case
  proof (cases "endsWith c newline")
    case True
    from frame_split_last [OF fr True] have rest: "concat cs = []" .
    have "newline \<notin> set (concat cs)" unfolding rest by simp
    then have "feed cs (handleResponse c s) =
        (handleResponse c s)\<lparr>currentMessageBuffer := currentMessageBuffer (handleResponse c s) @ concat cs\<rparr>"
      by (rule feed_no_newline)
    also have "\<dots> = handleResponse c s" unfolding rest by simp
    finally have "feed (c # cs) s = handleResponse c s" by (simp only: feed_Cons)
    moreover have "concat (c # cs) = c" by (simp only: concat.simps rest append_Nil2)
    ultimately show ?thesis by (simp only:)
  next
    case False
    from frame_split_rest [OF fr False] have tail: "isFrame (concat cs)" .
    then have e: "endsWith (concat cs) newline" by (simp add: isFrame_def endsWith_def)
    from Cons.IH [OF tail] False handleResponse_after_buffered [OF e] show ?thesis
      by (simp add: feed_Cons handleResponse_buffered)
  qed
qed

lemma feed_frames:
  "\<forall>cs \<in> set css. isFrame (concat cs) \<Longrightarrow> feed (concat css) s = feed (map concat css) s"
proof (induction css arbitrary: s)
  case Nil
  show ?case by simp
next
  case (Cons cs css)
  then show ?case
    by (simp add: feed_append feed_Cons feed_frame)
qed

lemma feed_whole_frames:
  "\<forall>f \<in> set fs. isFrame f \<Longrightarrow> currentMessageBuffer s = [] \<Longrightarrow>
     outputChannel (feed fs s) = outputChannel s @ map (\<lambda>f. ''Received: '' @ f) fs
     \<and> currentMessageBuffer (feed fs s) = []"
proof (induction fs arbitrary: s)
  case Nil
  then show ?case by (simp add: feed_Nil)
next
  case (Cons f fs)
  let ?s1 = "handleResponse f s"
  from Cons.prems have f: "endsWith f newline" by (simp add: isFrame_def endsWith_def)
  then have b: "currentMessageBuffer ?s1 = []"
    and o: "outputChannel ?s1 = outputChannel s @ [''Received: '' @ currentMessageBuffer s @ f]"
    by (simp_all add: handleResponse_def Let_def split: option.splits)
  from Cons.prems have "\<forall>f \<in> set fs. isFrame f" by simp
  from Cons.IH [OF this b] o Cons.prems(2) show ?case
    by (simp add: feed_Cons)
qed

text \<open>
  C1, as the claim states it, fails: a split of the transmission of the two frames
  \<open>a\<close> and \<open>b\<close> whose first chunk runs over the frame boundary is emitted as one
  message holding both frames, where the unsplit frames are emitted as two.
\<close>

theorem handleResponse_fragmentation_counterexample:
  "concat [''a\<newline>b'', ''\<newline>''] = concat [''a\<newline>'', ''b\<newline>'']
   \<and> isFrame ''a\<newline>'' \<and> isFrame ''b\<newline>''
   \<and> outputChannel (feed [''a\<newline>b'', ''\<newline>''] (newFlowrServerSession ''localhost:1042''))
       = [''Connecting to FlowR server at localhost:1042'', ''Received: a\<newline>b\<newline>'']
   \<and> outputChannel (feed [''a\<newline>'', ''b\<newline>''] (newFlowrServerSession ''localhost:1042''))
       = [''Connecting to FlowR server at localhost:1042'', ''Received: a\<newline>'', ''Received: b\<newline>'']"
  by (simp add: isFrame_def feed_def handleResponse_def endsWith_def newFlowrServerSession_def Let_def)

text \<open>
  C1, amended: for every way of splitting each frame of a newline-terminated
  multi-frame transmission into chunks (no chunk running over a frame boundary),
  feeding the chunks to \<open>handleResponse\<close> leaves the session in the same state as
  feeding each frame unsplit, and from an empty buffer emits exactly the frames, in
  order. A chunk that does not end with the terminator is appended to the buffer and
  nothing else changes; a chunk that ends with it emits one message, the buffer
  followed by the chunk.
\<close>

theorem handleResponse_fragmentation:
  assumes "\<forall>cs \<in> set css. isFrame (concat cs)"
  shows "feed (concat css) s = feed (map concat css) s
    \<and> (currentMessageBuffer s = [] \<longrightarrow>
         outputChannel (feed (concat css) s)
           = outputChannel s @ map (\<lambda>f. ''Received: '' @ f) (map concat css))
    \<and> (\<forall>m. \<not> endsWith m newline \<longrightarrow>
         handleResponse m s = s\<lparr>currentMessageBuffer := currentMessageBuffer s @ m\<rparr>)
    \<and> (\<forall>m. endsWith m newline \<longrightarrow>
         outputChannel (handleResponse m s)
           = outputChannel s @ [''Received: '' @ currentMessageBuffer s @ m]
         \<and> currentMessageBuffer (handleResponse m s) = [])"
proof -
  have same: "feed (concat css) s = feed (map concat css) s"
    using assms by (rule feed_frames)
  have frames: "\<forall>f \<in> set (map concat css). isFrame f"
    using assms by simp
  have out: "currentMessageBuffer s = [] \<longrightarrow>
      outputChannel (feed (concat css) s)
        = outputChannel s @ map (\<lambda>f. ''Received: '' @ f) (map concat css)"
    using feed_whole_frames [OF frames] same by simp
  have buffered: "\<forall>m. \<not> endsWith m newline \<longrightarrow>
      handleResponse m s = s\<lparr>currentMessageBuffer := currentMessageBuffer s @ m\<rparr>"
    by (simp add: handleResponse_buffered)
  have emitted: "\<forall>m. endsWith m newline \<longrightarrow>
      outputChannel (handleResponse m s)
        = outputChannel s @ [''Received: '' @ currentMessageBuffer s @ m]
      \<and> currentMessageBuffer (handleResponse m s) = []"
    by (simp add: handleResponse_def Let_def split: option.splits)
  from same out buffered emitted show ?thesis by blast
qed

theorem handleResponse_fragmentation_witness:
  "isFrame (concat [''x <'', ''- 1'', ''\<newline>'']) \<and> isFrame (concat [''y\<newline>''])
   \<and> outputChannel (feed (concat [[''x <'', ''- 1'', ''\<newline>''], [''y\<newline>'']]) (newFlowrServerSession ''h''))
       = [''Connecting to FlowR server at h'', ''Received: x <- 1\<newline>'', ''Received: y\<newline>'']"
proof -
  have f1: "isFrame (concat [''x <'', ''- 1'', ''\<newline>''])" and f2: "isFrame (concat [''y\<newline>''])"
    by (simp_all add: isFrame_def)
  then have h: "\<forall>cs \<in> set [[''x <'', ''- 1'', ''\<newline>''], [''y\<newline>'']]. isFrame (concat cs)"
    by simp
  have b: "currentMessageBuffer (newFlowrServerSession ''h'') = []"
    by (simp add: newFlowrServerSession_def)
  from handleResponse_fragmentation [OF h, of "newFlowrServerSession ''h''"] b
  have "outputChannel (feed (concat [[''x <'', ''- 1'', ''\<newline>''], [''y\<newline>'']]) (newFlowrServerSession ''h''))
      = outputChannel (newFlowrServerSession ''h'')
        @ map (\<lambda>f. ''Received: '' @ f) (map concat [[''x <'', ''- 1'', ''\<newline>''], [''y\<newline>'']])"
    by blast
  then have "outputChannel (feed (concat [[''x <'', ''- 1'', ''\<newline>''], [''y\<newline>'']]) (newFlowrServerSession ''h''))
      = [''Connecting to FlowR server at h'', ''Received: x <- 1\<newline>'', ''Received: y\<newline>'']"
    by (simp add: newFlowrServerSession_def)
  with f1 f2 show ?thesis by blast
qed

section \<open>Waiters and teardown\<close>

lemma resolve_length [simp]: "length (resolve q v ps) = length ps"
  by (simp add: resolve_def)

lemma resolve_other: "q \<noteq> p \<Longrightarrow> resolve q v ps ! p = ps ! p"
  by (simp add: resolve_def)

text \<open>A pending promise that the slot does not hold stays so at every step.\<close>

lemma step_keeps_dropped:
  assumes "p < length (promises s)" and "promises s ! p = Pending"
    and "onceOnLineReceived s \<noteq> Some p"
  shows "p < length (promises (step e s)) \<and> promises (step e s) ! p = Pending
    \<and> onceOnLineReceived (step e s) \<noteq> Some p"
proof (cases e)
  case (Data chunk)
  with assms show ?thesis
    by (auto simp: handleResponse_def Let_def resolve_other split: option.splits)
next
  case (SocketError x)
  with assms show ?thesis by (simp add: onSocketError_def)
next
  case AwaitResponse
  with assms show ?thesis by (auto simp: awaitResponse_def Let_def nth_append)
next
  case (SendCommand c)
  with assms show ?thesis by (simp add: sendCommand_def)
next
  case (SendCommandWithResponse c)
  with assms show ?thesis
    by (auto simp: sendCommandWithResponse_def awaitResponse_def sendCommand_def Let_def nth_append)
next
  case Destroy
  with assms show ?thesis by (simp add: destroy_def)
qed

lemma run_keeps_dropped:
  "p < length (promises s) \<Longrightarrow> promises s ! p = Pending \<Longrightarrow> onceOnLineReceived s \<noteq> Some p \<Longrightarrow>
     p < length (promises (run evs s)) \<and> promises (run evs s) ! p = Pending"
proof (induction evs arbitrary: s)
  case Nil
  then show ?case by (simp add: run_def)
next
  case (Cons e evs)
  from step_keeps_dropped [OF Cons.prems, of e]
  have a: "p < length (promises (step e s))" and b: "promises (step e s) ! p = Pending"
    and c: "onceOnLineReceived (step e s) \<noteq> Some p"
    by simp_all
  from Cons.IH [OF a b c] show ?case by (simp add: run_def)
qed

text \<open>Once the socket is destroyed, a pending promise stays pending at every step.\<close>

lemma step_keeps_pending_when_destroyed:
  assumes "destroyed (socket s)" and "p < length (promises s)" and "promises s ! p = Pending"
  shows "destroyed (socket (step e s)) \<and> p < length (promises (step e s))
    \<and> promises (step e s) ! p = Pending"
proof (cases e)
  case (Data chunk)
  with assms show ?thesis by simp
next
  case (SocketError x)
  with assms show ?thesis by (simp add: onSocketError_def)
next
  case AwaitResponse
  with assms show ?thesis by (simp add: awaitResponse_def Let_def nth_append)
next
  case (SendCommand c)
  with assms show ?thesis by (simp add: sendCommand_def socket_write_def)
next
  case (SendCommandWithResponse c)
  with assms show ?thesis
    by (simp add: sendCommandWithResponse_def awaitResponse_def sendCommand_def socket_write_def
        Let_def nth_append)
next
  case Destroy
  with assms show ?thesis by (simp add: destroy_def socket_destroy_def)
qed

lemma run_keeps_pending_when_destroyed:
  "destroyed (socket s) \<Longrightarrow> p < length (promises s) \<Longrightarrow> promises s ! p = Pending \<Longrightarrow>
     p < length (promises (run evs s)) \<and> promises (run evs s) ! p = Pending"
proof (induction evs arbitrary: s)
  case Nil
  then show ?case by (simp add: run_def)
next
  case (Cons e evs)
  from step_keeps_pending_when_destroyed [OF Cons.prems, of e]
  have a: "destroyed (socket (step e s))" and b: "p < length (promises (step e s))"
    and c: "promises (step e s) ! p = Pending"
    by simp_all
  from Cons.IH [OF a b c] show ?case by (simp add: run_def)
qed

text \<open>
  C8: a waiter registered while a previous waiter is pending takes the slot; the
  previous waiter's promise is settled by nothing that happens afterwards: it stays
  pending, neither resolved nor rejected.
\<close>

theorem awaitResponse_drops_previous_waiter:
  assumes "onceOnLineReceived s = Some p" and "p < length (promises s)"
    and "promises s ! p = Pending"
  shows "onceOnLineReceived (snd (awaitResponse s)) = Some (fst (awaitResponse s))
    \<and> fst (awaitResponse s) \<noteq> p
    \<and> promises (run evs (snd (awaitResponse s))) ! p = Pending
    \<and> requestFuture parses p (run evs (snd (awaitResponse s))) = Pending"
proof -
  let ?s1 = "snd (awaitResponse s)"
  have slot: "onceOnLineReceived ?s1 = Some (fst (awaitResponse s))"
    by (simp add: awaitResponse_def Let_def)
  from assms(2) have new: "fst (awaitResponse s) \<noteq> p"
    by (simp add: awaitResponse_def Let_def)
  from assms(2) have a: "p < length (promises ?s1)"
    by (simp add: awaitResponse_def Let_def)
  from assms(2,3) have b: "promises ?s1 ! p = Pending"
    by (simp add: awaitResponse_def Let_def nth_append)
  from slot new have c: "onceOnLineReceived ?s1 \<noteq> Some p" by simp
  from run_keeps_dropped [OF a b c, of evs]
  have d: "p < length (promises (run evs ?s1))" and e: "promises (run evs ?s1) ! p = Pending"
    by simp_all
  then have "requestFuture parses p (run evs ?s1) = Pending"
    by (simp add: requestFuture_def)
  with slot new e show ?thesis by blast
qed

theorem awaitResponse_drops_previous_waiter_witness:
  "onceOnLineReceived (snd (awaitResponse (newFlowrServerSession ''h''))) = Some 0
   \<and> 0 < length (promises (snd (awaitResponse (newFlowrServerSession ''h''))))
   \<and> promises (snd (awaitResponse (newFlowrServerSession ''h''))) ! 0 = Pending
   \<and> promises (run [Data ''{}\<newline>'', Destroy]
        (snd (awaitResponse (snd (awaitResponse (newFlowrServerSession ''h'')))))) ! 0 = Pending"
proof -
  let ?s = "snd (awaitResponse (newFlowrServerSession ''h''))"
  have a: "onceOnLineReceived ?s = Some 0" and b: "0 < length (promises ?s)"
    and c: "promises ?s ! 0 = Pending"
    by (simp_all add: awaitResponse_def newFlowrServerSession_def Let_def)
  from awaitResponse_drops_previous_waiter [OF a b c, of "[Data ''{}\<newline>'', Destroy]"]
  have "promises (run [Data ''{}\<newline>'', Destroy] (snd (awaitResponse ?s))) ! 0 = Pending"
    by blast
  with a b c show ?thesis by blast
qed

text \<open>
  C2, as the claim states it, fails: a request is outstanding, the session is
  destroyed (or the socket reports an error), and the request's future is still
  pending; it has not failed with a connection-closed error.
\<close>

theorem close_rejects_request_counterexample:
  "requestFuture (\<lambda>line. True) (fst (sendCommandWithResponse ''{}'' (newFlowrServerSession ''h'')))
     (destroy (snd (sendCommandWithResponse ''{}'' (newFlowrServerSession ''h'')))) = Pending
   \<and> requestFuture (\<lambda>line. True) (fst (sendCommandWithResponse ''{}'' (newFlowrServerSession ''h'')))
     (onSocketError ''ECONNRESET'' (snd (sendCommandWithResponse ''{}'' (newFlowrServerSession ''h'')))) = Pending
   \<and> requestFuture (\<lambda>line. True) (fst (sendCommandWithResponse ''{}'' (newFlowrServerSession ''h'')))
     (destroy (snd (sendCommandWithResponse ''{}'' (newFlowrServerSession ''h''))))
       \<noteq> Rejected ''connection closed''"
  by (simp add: requestFuture_def sendCommandWithResponse_def awaitResponse_def sendCommand_def
      destroy_def onSocketError_def newFlowrServerSession_def Let_def)

text \<open>
  C2, amended: if the channel closes (session destroyed or socket error) while a
  request is outstanding, the close does not settle the request's future: it is
  still pending after \<open>destroy\<close> and after the error handler, and after \<open>destroy\<close> it
  stays pending whatever happens to the session next.
\<close>

theorem close_leaves_request_pending:
  assumes "p < length (promises s)" and "promises s ! p = Pending"
  shows "requestFuture parses p (destroy s) = Pending
    \<and> requestFuture parses p (onSocketError e s) = Pending
    \<and> requestFuture parses p (run evs (destroy s)) = Pending"
proof -
  from assms have d: "requestFuture parses p (destroy s) = Pending"
    by (simp add: requestFuture_def destroy_def)
  from assms have err: "requestFuture parses p (onSocketError e s) = Pending"
    by (simp add: requestFuture_def onSocketError_def)
  have a: "destroyed (socket (destroy s))"
    by (simp add: destroy_def socket_destroy_def)
  from assms have b: "p < length (promises (destroy s))" and c: "promises (destroy s) ! p = Pending"
    by (simp_all add: destroy_def)
  from run_keeps_pending_when_destroyed [OF a b c, of evs]
  have after: "requestFuture parses p (run evs (destroy s)) = Pending"
    by (simp add: requestFuture_def)
  from d err after show ?thesis by blast
qed

theorem close_leaves_request_pending_witness:
  "0 < length (promises (snd (sendCommandWithResponse ''{}'' (newFlowrServerSession ''h''))))
   \<and> promises (snd (sendCommandWithResponse ''{}'' (newFlowrServerSession ''h''))) ! 0 = Pending
   \<and> requestFuture (\<lambda>line. True) 0
        (run [Data ''{}\<newline>'']
           (destroy (snd (sendCommandWithResponse ''{}'' (newFlowrServerSession ''h''))))) = Pending"
proof -
  let ?s = "snd (sendCommandWithResponse ''{}'' (newFlowrServerSession ''h''))"
  have a: "0 < length (promises ?s)" and b: "promises ?s ! 0 = Pending"
    by (simp_all add: sendCommandWithResponse_def awaitResponse_def sendCommand_def
        newFlowrServerSession_def Let_def)
  from close_leaves_request_pending [OF a b, of "\<lambda>line. True" _ "[Data ''{}\<newline>'']"]
  have "requestFuture (\<lambda>line. True) 0 (run [Data ''{}\<newline>''] (destroy ?s)) = Pending"
    by blast
  with a b show ?thesis by blast
qed

text \<open>
  C9: destroying a session twice is destroying it once. \<open>destroy\<close> is defined on
  every session state, marks the socket destroyed, and a second call changes nothing;
  \<open>destroySession\<close> destroys the session the handle refers to, clears the handle, and
  a second call finds the handle cleared and calls no \<open>destroy\<close> at all.
\<close>

theorem destroy_idempotent:
  "destroy (destroy s) = destroy s
   \<and> destroyed (socket (destroy s))
   \<and> run [Destroy, Destroy] s = run [Destroy] s
   \<and> destroySession destroyInternal (destroySession destroyInternal g)
       = destroySession destroyInternal g
   \<and> flowrSession (destroySession destroyInternal g) = None
   \<and> (\<forall>r x. flowrSession g = Some r \<and> r < length (sessions g) \<and> sessions g ! r = Server x \<longrightarrow>
         sessions (destroySession destroyInternal g) ! r = Server (destroy x))"
  by (simp add: destroy_def socket_destroy_def run_def destroySession_def Let_def
      split: option.splits)

theorem destroy_idempotent_witness:
  "flowrSession \<lparr> sessions = [Server (newFlowrServerSession ''h'')], flowrSession = Some 0 \<rparr> = Some 0
   \<and> sessions (destroySession (\<lambda>i::unit. i)
        \<lparr> sessions = [Server (newFlowrServerSession ''h'')], flowrSession = Some 0 \<rparr>) ! 0
     = Server (destroy (newFlowrServerSession ''h''))
   \<and> destroySession (\<lambda>i::unit. i) (destroySession (\<lambda>i::unit. i)
        \<lparr> sessions = [Server (newFlowrServerSession ''h'')], flowrSession = Some 0 \<rparr>)
     = destroySession (\<lambda>i::unit. i)
        \<lparr> sessions = [Server (newFlowrServerSession ''h'')], flowrSession = Some 0 \<rparr>"
proof -
  let ?g = "\<lparr> sessions = [Server (newFlowrServerSession ''h'')], flowrSession = Some (0::nat) \<rparr>"
  have h: "flowrSession ?g = Some 0" and l: "0 < length (sessions ?g)"
    and x: "sessions ?g ! 0 = Server (newFlowrServerSession ''h'')"
    by simp_all
  from destroy_idempotent [of _ "\<lambda>i::unit. i" ?g] h l x
  have a: "sessions (destroySession (\<lambda>i::unit. i) ?g) ! 0 = Server (destroy (newFlowrServerSession ''h''))"
    and b: "destroySession (\<lambda>i::unit. i) (destroySession (\<lambda>i::unit. i) ?g)
      = destroySession (\<lambda>i::unit. i) ?g"
    by blast+
  from h a b show ?thesis by blast
qed

section \<open>Location reconciliation\<close>

lemma compareStart_le: "compareStart a b \<le> 0 \<longleftrightarrow> startLe a b"
  by (auto simp: compareStart_def startLe_def Let_def)

lemma startLe_total: "startLe a b \<or> startLe b a"
  by (auto simp: startLe_def)

lemma startLe_trans: "startLe a b \<Longrightarrow> startLe b c \<Longrightarrow> startLe a c"
  by (auto simp: startLe_def)

lemma set_insertBy: "set (insertBy cmp x xs) = insert x (set xs)"
  by (induction xs) auto

lemma set_sortBy: "set (sortBy cmp xs) = set xs"
  by (induction xs) (simp_all add: sortBy_def set_insertBy)

lemma distinct_fst_insertBy:
  "distinct (map fst (insertBy cmp x xs)) \<longleftrightarrow> fst x \<notin> fst ` set xs \<and> distinct (map fst xs)"
  by (induction xs) (auto simp: set_insertBy)

lemma distinct_fst_sortBy: "distinct (map fst (sortBy cmp xs)) \<longleftrightarrow> distinct (map fst xs)"
  by (induction xs) (simp_all add: sortBy_def distinct_fst_insertBy set_sortBy [unfolded sortBy_def])

lemma sorted_insertBy:
  assumes "sorted_wrt (\<lambda>a b. startLe (snd a) (snd b)) xs"
  shows "sorted_wrt (\<lambda>a b. startLe (snd a) (snd b))
     (insertBy (\<lambda>a b. compareStart (snd a) (snd b)) x xs)"
  using assms
proof (induction xs)
  case Nil
  show ?case by simp
next
  case (Cons y ys)
  show ?case
  proof (cases "compareStart (snd x) (snd y) \<le> 0")
    case True
    then have xy: "startLe (snd x) (snd y)" by (simp add: compareStart_le)
    with Cons.prems have "\<forall>z \<in> set ys. startLe (snd x) (snd z)"
      by (auto intro: startLe_trans)
    with True xy Cons.prems show ?thesis by simp
  next
    case False
    then have "startLe (snd y) (snd x)"
      using startLe_total [of "snd x" "snd y"] by (simp add: compareStart_le)
    with False Cons show ?thesis by (auto simp: set_insertBy)
  qed
qed

lemma sorted_sortBy:
  "sorted_wrt (\<lambda>a b. startLe (snd a) (snd b)) (sortBy (\<lambda>a b. compareStart (snd a) (snd b)) xs)"
  by (induction xs) (simp_all add: sortBy_def sorted_insertBy)

text \<open>The visitor reaches the nodes in preorder.\<close>

lemma visitAst_children:
  "(\<And>c acc. c \<in> set cs \<Longrightarrow> visitAst c f acc = fold f (nodes c) acc) \<Longrightarrow>
     fold (\<lambda>c. visitAst c f) cs acc = fold f (concat (map nodes cs)) acc"
  by (induction cs arbitrary: acc) simp_all

lemma visitAst_nodes: "visitAst t f acc = fold f (nodes t) acc"
proof (induction t arbitrary: acc)
  case (RNode i l cs)
  then show ?case by (simp add: visitAst_children)
qed

lemma fold_record_Some:
  "fold (\<lambda>n m. case location n of Some l \<Rightarrow> m(info_id n \<mapsto> l) | None \<Rightarrow> m) ns m0 i = Some l \<Longrightarrow>
     m0 i = Some l \<or> (\<exists>n \<in> set ns. info_id n = i \<and> location n = Some l)"
proof (induction ns arbitrary: m0)
  case Nil
  then show ?case by simp
next
  case (Cons n ns)
  from Cons.IH [OF Cons.prems [simplified]] show ?case
    by (auto split: option.splits if_splits)
qed

lemma fold_record_dom:
  "dom (fold (\<lambda>n m. case location n of Some l \<Rightarrow> m(info_id n \<mapsto> l) | None \<Rightarrow> m) ns m0)
     = dom m0 \<union> {info_id n | n. n \<in> set ns \<and> location n \<noteq> None}"
proof (induction ns arbitrary: m0)
  case Nil
  show ?case by simp
next
  case (Cons n ns)
  show ?case
    by (cases "location n") (auto simp: Cons.IH split: if_splits)
qed

lemma idToLocation_Some:
  "idToLocation ast i = Some l \<Longrightarrow> \<exists>n \<in> set (nodes ast). info_id n = i \<and> location n = Some l"
  unfolding idToLocation_def visitAst_nodes
  by (drule fold_record_Some) simp

lemma idToLocation_dom:
  "dom (idToLocation ast) = {info_id n | n. n \<in> set (nodes ast) \<and> location n \<noteq> None}"
  unfolding idToLocation_def visitAst_nodes
  by (simp add: fold_record_dom)

lemma located_set:
  "set (map (\<lambda>e. (fst e, the (snd e))) (filter (\<lambda>e. snd e \<noteq> None) (map (\<lambda>i. (i, m i)) result)))
     = {(i, l). i \<in> set result \<and> m i = Some l}"
  by (auto simp: image_iff)

lemma located_fst:
  "map fst (map (\<lambda>e. (fst e, the (snd e))) (filter (\<lambda>e. snd e \<noteq> None) (map (\<lambda>i. (i, m i)) result)))
     = filter (\<lambda>i. m i \<noteq> None) result"
  by (induction result) auto

text \<open>
  C3: for a slice result without repetitions (a set) and the location map built by
  visiting the AST, which holds exactly the identifiers of the nodes that carry a
  location, each with a location of such a node, \<open>retrieveSlice\<close> produces exactly the
  pairs of an identifier of the slice that the map holds and its location in the
  map, each identifier once, in ascending order of start line and start column.
  Identifiers that the map does not hold are left out.
\<close>

theorem retrieveSlice_reconciles_locations:
  assumes "distinct result"
  shows "set (retrieveSlice_elements ast result)
      = {(i, l). i \<in> set result \<and> idToLocation ast i = Some l}
    \<and> distinct (map fst (retrieveSlice_elements ast result))
    \<and> sorted_wrt (\<lambda>a b. startLe (snd a) (snd b)) (retrieveSlice_elements ast result)
    \<and> dom (idToLocation ast) = {info_id n | n. n \<in> set (nodes ast) \<and> location n \<noteq> None}
    \<and> (\<forall>i l. idToLocation ast i = Some l \<longrightarrow>
          (\<exists>n \<in> set (nodes ast). info_id n = i \<and> location n = Some l))"
proof -
  have s: "set (retrieveSlice_elements ast result)
      = {(i, l). i \<in> set result \<and> idToLocation ast i = Some l}"
    unfolding retrieveSlice_elements_def sliceElements_def set_sortBy by (rule located_set)
  from assms have d: "distinct (map fst (retrieveSlice_elements ast result))"
    unfolding retrieveSlice_elements_def sliceElements_def distinct_fst_sortBy located_fst
    by simp
  have o: "sorted_wrt (\<lambda>a b. startLe (snd a) (snd b)) (retrieveSlice_elements ast result)"
    unfolding retrieveSlice_elements_def sliceElements_def by (rule sorted_sortBy)
  from s d o idToLocation_dom [of ast] idToLocation_Some [of ast] show ?thesis by blast
qed

theorem retrieveSlice_reconciles_locations_witness:
  "distinct [''n2'', ''n3'', ''n1'']
   \<and> retrieveSlice_elements
        (RNode ''n0'' None
           [RNode ''n1'' (Some \<lparr> start = \<lparr> line = 1, column = 1 \<rparr>, end' = \<lparr> line = 1, column = 6 \<rparr> \<rparr>) [],
            RNode ''n2'' (Some \<lparr> start = \<lparr> line = 2, column = 1 \<rparr>, end' = \<lparr> line = 2, column = 11 \<rparr> \<rparr>) []])
        [''n2'', ''n3'', ''n1'']
      = [(''n1'', \<lparr> start = \<lparr> line = 1, column = 1 \<rparr>, end' = \<lparr> line = 1, column = 6 \<rparr> \<rparr>),
         (''n2'', \<lparr> start = \<lparr> line = 2, column = 1 \<rparr>, end' = \<lparr> line = 2, column = 11 \<rparr> \<rparr>)]
   \<and> distinct (map fst (retrieveSlice_elements
        (RNode ''n0'' None
           [RNode ''n1'' (Some \<lparr> start = \<lparr> line = 1, column = 1 \<rparr>, end' = \<lparr> line = 1, column = 6 \<rparr> \<rparr>) [],
            RNode ''n2'' (Some \<lparr> start = \<lparr> line = 2, column = 1 \<rparr>, end' = \<lparr> line = 2, column = 11 \<rparr> \<rparr>) []])
        [''n2'', ''n3'', ''n1'']))"
proof -
  let ?ast = "RNode ''n0'' None
           [RNode ''n1'' (Some \<lparr> start = \<lparr> line = 1, column = 1 \<rparr>, end' = \<lparr> line = 1, column = 6 \<rparr> \<rparr>) [],
            RNode ''n2'' (Some \<lparr> start = \<lparr> line = 2, column = 1 \<rparr>, end' = \<lparr> line = 2, column = 11 \<rparr> \<rparr>) []]"
  have h: "distinct [''n2'', ''n3'', ''n1'']" by simp
  from retrieveSlice_reconciles_locations [OF h, of ?ast]
  have d: "distinct (map fst (retrieveSlice_elements ?ast [''n2'', ''n3'', ''n1'']))" by blast
  have v: "retrieveSlice_elements ?ast [''n2'', ''n3'', ''n1'']
      = [(''n1'', \<lparr> start = \<lparr> line = 1, column = 1 \<rparr>, end' = \<lparr> line = 1, column = 6 \<rparr> \<rparr>),
         (''n2'', \<lparr> start = \<lparr> line = 2, column = 1 \<rparr>, end' = \<lparr> line = 2, column = 11 \<rparr> \<rparr>)]"
    by (simp add: retrieveSlice_elements_def sliceElements_def idToLocation_def sortBy_def
        compareStart_def)
  from h v d show ?thesis by blast
qed

section \<open>The ring buffer\<close>

lemma rotate_step:
  assumes "i < length xs"
  shows "drop ((i + 1) mod length xs) (xs[i := v]) @ take ((i + 1) mod length xs) (xs[i := v])
     = tl (drop i xs @ take i xs) @ [v]"
proof -
  have u: "xs[i := v] = take i xs @ v # drop (Suc i) xs"
    using assms by (rule upd_conv_take_nth_drop)
  have d: "drop i xs = xs ! i # drop (Suc i) xs"
    using assms by (simp add: Cons_nth_drop_Suc)
  have li: "length (take i xs) = i" using assms by simp
  show ?thesis
  proof (cases "Suc i = length xs")
    case True
    then have "(i + 1) mod length xs = 0" by simp
    moreover from True have "drop (Suc i) xs = []" by simp
    ultimately show ?thesis unfolding u d by simp
  next
    case False
    with assms have "(i + 1) mod length xs = Suc i" by simp
    then show ?thesis unfolding u d using li by (simp add: min_def)
  qed
qed

lemma entries_push:
  assumes "index b < length (buffer b)"
  shows "drop (index (push x b)) (buffer (push x b)) @ take (index (push x b)) (buffer (push x b))
     = tl (drop (index b) (buffer b) @ take (index b) (buffer b)) @ [Some x]"
    and "index (push x b) < length (buffer (push x b))"
    and "length (buffer (push x b)) = length (buffer b)"
proof -
  from assms have pos: "0 < length (buffer b)" by (cases "buffer b") simp_all
  show "drop (index (push x b)) (buffer (push x b)) @ take (index (push x b)) (buffer (push x b))
     = tl (drop (index b) (buffer b) @ take (index b) (buffer b)) @ [Some x]"
    using rotate_step [OF assms, of "Some x"] by (simp add: push_def)
  show "index (push x b) < length (buffer (push x b))"
    using pos by (simp add: push_def)
  show "length (buffer (push x b)) = length (buffer b)"
    by (simp add: push_def)
qed

text \<open>After pushing xs into a new buffer: the slots in order of age.\<close>

lemma slots_after_pushes:
  assumes "0 < n"
  shows "(let b = fold push xs (newRotaryBuffer n)
          in drop (index b) (buffer b) @ take (index b) (buffer b)
               = replicate (n - length xs) None @ map Some (drop (length xs - n) xs)
             \<and> index b < length (buffer b) \<and> length (buffer b) = n)"
proof (induction xs rule: rev_induct)
  case Nil
  from assms show ?case by (simp add: newRotaryBuffer_def)
next
  case (snoc x xs)
  let ?b = "fold push xs (newRotaryBuffer n)"
  from snoc have slots: "drop (index ?b) (buffer ?b) @ take (index ?b) (buffer ?b)
      = replicate (n - length xs) None @ map Some (drop (length xs - n) xs)"
    and i: "index ?b < length (buffer ?b)" and l: "length (buffer ?b) = n"
    by (simp_all add: Let_def)
  note p = entries_push [OF i, of x]
  have "tl (replicate (n - length xs) None @ map Some (drop (length xs - n) xs)) @ [Some x]
      = replicate (n - length (xs @ [x])) None @ map Some (drop (length (xs @ [x]) - n) (xs @ [x]))"
  proof (cases "length xs < n")
    case True
    then obtain k where k: "n - length xs = Suc k"
      by (metis zero_less_diff less_imp_Suc_add)
    with True have "n - length (xs @ [x]) = k" by simp
    with True k show ?thesis by simp
  next
    case False
    then have ge: "n \<le> length xs" by simp
    with assms have ne: "drop (length xs - n) xs \<noteq> []" by simp
    from ge have s: "Suc (length xs) - n = Suc (length xs - n)" by simp
    have t: "tl (map Some (drop (length xs - n) xs)) = map Some (drop (Suc (length xs - n)) xs)"
      by (metis drop_Suc map_tl tl_drop)
    from ge ne s t show ?thesis by simp
  qed
  with p slots l show ?case by (simp add: Let_def)
qed

lemma map_filter_id_Some: "List.map_filter id (replicate k None @ map Some ys) = ys"
  by (induction k) (simp_all add: List.map_filter_def comp_def)

lemma entries_after_pushes:
  "0 < n \<Longrightarrow> entries (fold push xs (newRotaryBuffer n)) = drop (length xs - n) xs"
  using slots_after_pushes [of n xs]
  by (simp add: entries_def Let_def map_filter_id_Some)

lemma find_eq_Some: "x \<in> set ys \<Longrightarrow> find (\<lambda>e. e = x) ys = Some x"
  by (induction ys) auto

lemma find_eq_None: "x \<notin> set ys \<Longrightarrow> find (\<lambda>e. e = x) ys = None"
  by (induction ys) auto

lemma refresh_start_hit_keeps_cache:
  "refresh_start k ed v = Returned CacheHit v' \<Longrightarrow> textBuffer v' = textBuffer v"
  by (auto simp: refresh_start_def refresh_finally_def did_def Let_def
      split: if_splits option.splits)

text \<open>
  C5: the cache of the view is a ring buffer of capacity 5. For a ring buffer of any
  capacity above zero, pushing capacity + 1 distinct entries into the new buffer leaves
  exactly the last capacity entries, in the order pushed: capacity entries, the first
  pushed entry gone (\<open>get\<close> does not find it), the others present (\<open>get\<close> finds each).
  A hit changes nothing in the buffer, so eviction follows the order of the pushes.
\<close>

theorem rotaryBuffer_fifo_eviction:
  assumes "0 < capacity" and "length xs = capacity + 1" and "distinct xs"
  shows "entries (fold push xs (newRotaryBuffer capacity)) = tl xs
    \<and> length (entries (fold push xs (newRotaryBuffer capacity))) = capacity
    \<and> hd xs \<notin> set (entries (fold push xs (newRotaryBuffer capacity)))
    \<and> get (\<lambda>e. e = hd xs) (fold push xs (newRotaryBuffer capacity)) = None
    \<and> (\<forall>x \<in> set (tl xs). get (\<lambda>e. e = x) (fold push xs (newRotaryBuffer capacity)) = Some x)
    \<and> textBuffer (newFlowrDependencyTreeView k) = newRotaryBuffer 5
    \<and> (\<forall>ed v v'. refresh_start k ed v = Returned CacheHit v' \<longrightarrow> textBuffer v' = textBuffer v)"
proof -
  let ?b = "fold push xs (newRotaryBuffer capacity)"
  from assms(2) obtain y ys where xs: "xs = y # ys" by (cases xs) simp_all
  from assms(2) have "drop (length xs - capacity) xs = tl xs"
    by (simp add: xs)
  with entries_after_pushes [OF assms(1), of xs] have e: "entries ?b = tl xs"
    by (simp only:)
  from assms(2) have l: "length (entries ?b) = capacity"
    unfolding e by simp
  from assms(3) have a: "hd xs \<notin> set (entries ?b)"
    unfolding e by (simp add: xs)
  then have g: "get (\<lambda>e. e = hd xs) ?b = None"
    by (simp add: get_def find_eq_None)
  have p: "\<forall>x \<in> set (tl xs). get (\<lambda>e. e = x) ?b = Some x"
    unfolding get_def e by (simp add: find_eq_Some)
  have c: "textBuffer (newFlowrDependencyTreeView k) = newRotaryBuffer 5"
    by (simp add: newFlowrDependencyTreeView_def)
  from e l a g p c refresh_start_hit_keeps_cache [of k] show ?thesis by blast
qed

theorem rotaryBuffer_fifo_eviction_witness:
  "(0::nat) < 5 \<and> length [1, 2, 3, 4, 5, 6 :: nat] = 5 + 1 \<and> distinct [1, 2, 3, 4, 5, 6 :: nat]
   \<and> entries (fold push [1, 2, 3, 4, 5, 6 :: nat] (newRotaryBuffer 5)) = tl [1, 2, 3, 4, 5, 6]
   \<and> get (\<lambda>e. e = hd [1, 2, 3, 4, 5, 6 :: nat]) (fold push [1, 2, 3, 4, 5, 6] (newRotaryBuffer 5)) = None"
proof -
  have a: "(0::nat) < 5" and b: "length [1, 2, 3, 4, 5, 6 :: nat] = 5 + 1"
    and c: "distinct [1, 2, 3, 4, 5, 6 :: nat]"
    by simp_all
  from a b c rotaryBuffer_fifo_eviction [OF a b c] show ?thesis by blast
qed

section \<open>The refresh of the dependency view\<close>

lemma did_fields [simp]:
  "working (did as v) = working v"
  "lastText (did as v) = lastText v"
  "textBuffer (did as v) = textBuffer v"
  "trace (did as v) = trace v @ as"
  by (simp_all add: did_def)

lemma refresh_finally_fields [simp]:
  "working (refresh_finally v) = False"
  "lastText (refresh_finally v) = lastText v"
  "textBuffer (refresh_finally v) = textBuffer v"
  "trace (refresh_finally v) = trace v @ [RevealLater]"
  by (simp_all add: refresh_finally_def)

lemma roundTrips_append:
  "trace v' = trace v @ as \<Longrightarrow>
     roundTrips v' = roundTrips v + length (filter (\<lambda>a. a = RetrieveQuery) as)"
  by (simp add: roundTrips_def)

text \<open>What the query does to the view: at most one round trip, nothing else but the trace.\<close>

lemma getDependenciesForActiveFile_view:
  "snd (getDependenciesForActiveFile k env v)
     = did (if editorActive env
            then (case reply env of
                    NoSession e \<Rightarrow> []
                  | QueryRejected e \<Rightarrow> [RetrieveQuery]
                  | QueryError \<Rightarrow>
                      [RetrieveQuery,
                       AppendLine ''[Dependencies View] Error: Could not retrieve dependencies'']
                  | QueryResult d l \<Rightarrow>
                      [RetrieveQuery,
                       AppendLine (''[Dependencies View] Refreshed! '' @ timings k \<lparr> dep = d, loc = l \<rparr>)])
            else []) v"
  by (simp add: getDependenciesForActiveFile_def did_def split: reply.splits)

lemma getDependenciesForActiveFile_fields:
  "working (snd (getDependenciesForActiveFile k env v)) = working v"
  "lastText (snd (getDependenciesForActiveFile k env v)) = lastText v"
  "textBuffer (snd (getDependenciesForActiveFile k env v)) = textBuffer v"
  by (simp_all add: getDependenciesForActiveFile_view)

lemma getDependenciesForActiveFile_trace:
  "\<exists>as. trace (snd (getDependenciesForActiveFile k env v)) = trace v @ as
     \<and> length (filter (\<lambda>a. a = RetrieveQuery) as) \<le> 1"
  by (simp add: getDependenciesForActiveFile_view split: reply.splits)

lemma getDependenciesForActiveFile_failure:
  "editorActive env \<Longrightarrow> \<forall>d l. reply env \<noteq> QueryResult d l \<Longrightarrow>
     \<forall>r. fst (getDependenciesForActiveFile k env v) \<noteq> Deps r"
  by (simp add: getDependenciesForActiveFile_def split: reply.splits)

lemma refresh_finish_working [simp]: "working (refresh_finish k env text v) = False"
  by (simp add: refresh_finish_def split_beta Let_def)

lemma refresh_finish_lastText [simp]: "lastText (refresh_finish k env text v) = lastText v"
  by (simp add: refresh_finish_def split_beta Let_def getDependenciesForActiveFile_fields
      split: outcome.splits)

lemma refresh_finish_trace:
  "\<exists>as. trace (refresh_finish k env text v) = trace v @ as
     \<and> length (filter (\<lambda>a. a = RetrieveQuery) as) \<le> 1"
proof -
  obtain as where as: "trace (snd (getDependenciesForActiveFile k env v)) = trace v @ as"
    and one: "length (filter (\<lambda>a. a = RetrieveQuery) as) \<le> 1"
    using getDependenciesForActiveFile_trace by blast
  show ?thesis
  proof (cases "fst (getDependenciesForActiveFile k env v)")
    case (Deps r)
    with as have "trace (refresh_finish k env text v) = trace v @ (as @ [CachePush text, Fire, RevealLater])"
      by (simp add: refresh_finish_def split_beta Let_def)
    with one show ?thesis by (intro exI [of _ "as @ [CachePush text, Fire, RevealLater]"]) simp
  next
    case Error
    show ?thesis
    proof (cases "keepOnError env")
      case True
      with Error as have "trace (refresh_finish k env text v) = trace v @ (as @ [RevealLater])"
        by (simp add: refresh_finish_def split_beta Let_def)
      with one show ?thesis by (intro exI [of _ "as @ [RevealLater]"]) simp
    next
      case False
      with Error as have "trace (refresh_finish k env text v) = trace v @ (as @ [Fire, RevealLater])"
        by (simp add: refresh_finish_def split_beta Let_def)
      with one show ?thesis by (intro exI [of _ "as @ [Fire, RevealLater]"]) simp
    qed
  next
    case (Thrown e)
    with as have "trace (refresh_finish k env text v)
        = trace v @ (as @ [AppendLine (''[Dependencies View] Error: '' @ e), RevealLater])"
      by (simp add: refresh_finish_def split_beta Let_def)
    with one show ?thesis
      by (intro exI [of _ "as @ [AppendLine (''[Dependencies View] Error: '' @ e), RevealLater]"]) simp
  qed
qed

lemma refresh_finish_failure_keeps_cache:
  assumes "editorActive env" and "\<forall>d l. reply env \<noteq> QueryResult d l"
  shows "textBuffer (refresh_finish k env text v) = textBuffer v"
proof (cases "fst (getDependenciesForActiveFile k env v)")
  case (Deps r)
  with getDependenciesForActiveFile_failure [OF assms, of k v] show ?thesis by simp
next
  case Error
  then show ?thesis
    by (simp add: refresh_finish_def split_beta Let_def getDependenciesForActiveFile_fields)
next
  case (Thrown e)
  then show ?thesis
    by (simp add: refresh_finish_def split_beta Let_def getDependenciesForActiveFile_fields)
qed

text \<open>The four ways \<open>refresh_start\<close> goes.\<close>

lemma refresh_start_working:
  "working v \<Longrightarrow> refresh_start k ed v = Returned WorkingGuard v"
  by (simp add: refresh_start_def)

lemma refresh_start_not_r:
  "\<not> working v \<Longrightarrow> languageId d \<noteq> ''r'' \<Longrightarrow> refresh_start k (Some d) v = Returned LanguageCheck v"
  by (simp add: refresh_start_def)

lemma refresh_start_no_editor:
  "\<not> working v \<Longrightarrow> refresh_start k None v = Returned LanguageCheck v"
  by (simp add: refresh_start_def)

lemma refresh_start_unchanged:
  "\<not> working v \<Longrightarrow> languageId d = ''r'' \<Longrightarrow> textFingerprint (getText d) = lastText v \<Longrightarrow>
     refresh_start k (Some d) v = Returned LastTextShortCircuit v"
  by (simp add: refresh_start_def)

lemma refresh_start_changed:
  assumes "\<not> working v" and "languageId d = ''r''" and "textFingerprint (getText d) \<noteq> lastText v"
  shows "refresh_start k (Some d) v =
     (let text = textFingerprint (getText d);
          v4 = did [SetLastText text, AppendLine ''Refreshing dependencies'', CacheGet text]
                 (v\<lparr>lastText := text, working := True\<rparr>)
      in case get (\<lambda>e. fst e = text) (textBuffer v) of
           Some has \<Rightarrow>
             Returned CacheHit
               (refresh_finally
                  (did [AppendLine (''[Dependencies View] Using cached dependencies ''
                                    @ timings k (snd has)), Fire]
                     (v4\<lparr>activeDependencies := dep (snd has), locationMap := loc (snd has)\<rparr>)))
         | None \<Rightarrow> Suspended v4 text)"
  using assms by (simp add: refresh_start_def did_def Let_def split: option.splits)

lemma refresh_start_Returned:
  "\<not> working v \<Longrightarrow> refresh_start k ed v = Returned x v' \<Longrightarrow> \<not> working v'"
  by (auto simp: refresh_start_def Let_def split: option.splits if_splits)

lemma refresh_start_Suspended:
  "refresh_start k ed v = Suspended v' text \<Longrightarrow> \<not> working v \<and> working v'"
  by (auto simp: refresh_start_def Let_def split: option.splits if_splits)

text \<open>A refresh that passes the fingerprint comparison, run to its end.\<close>

lemma refresh_changed:
  assumes "\<not> working v" and "languageId d = ''r''" and "textFingerprint (getText d) \<noteq> lastText v"
  shows "\<exists>post. trace (refresh k (Some d) env v)
        = trace v @ [SetLastText (textFingerprint (getText d)),
                     AppendLine ''Refreshing dependencies'',
                     CacheGet (textFingerprint (getText d))] @ post
      \<and> length (filter (\<lambda>a. a = RetrieveQuery) post) \<le> 1
      \<and> lastText (refresh k (Some d) env v) = textFingerprint (getText d)
      \<and> \<not> working (refresh k (Some d) env v)"
proof -
  let ?text = "textFingerprint (getText d)"
  let ?v4 = "did [SetLastText ?text, AppendLine ''Refreshing dependencies'', CacheGet ?text]
               (v\<lparr>lastText := ?text, working := True\<rparr>)"
  note start = refresh_start_changed [OF assms, of k]
  show ?thesis
  proof (cases "get (\<lambda>e. fst e = ?text) (textBuffer v)")
    case None
    with start have r: "refresh k (Some d) env v = refresh_finish k env ?text ?v4"
      by (simp add: refresh_def Let_def)
    obtain as where as: "trace (refresh_finish k env ?text ?v4) = trace ?v4 @ as"
      and one: "length (filter (\<lambda>a. a = RetrieveQuery) as) \<le> 1"
      using refresh_finish_trace by blast
    from as one show ?thesis unfolding r
      by (intro exI [of _ as]) simp
  next
    case (Some has)
    with start show ?thesis
      by (simp add: refresh_def Let_def)
  qed
qed

lemma refresh_of_r:
  assumes "\<not> working v" and "languageId d = ''r''"
  shows "\<not> working (refresh k (Some d) env v)
    \<and> lastText (refresh k (Some d) env v) = textFingerprint (getText d)
    \<and> roundTrips (refresh k (Some d) env v) \<le> roundTrips v + 1"
proof (cases "textFingerprint (getText d) = lastText v")
  case True
  with assms show ?thesis
    by (simp add: refresh_def refresh_start_unchanged)
next
  case False
  from refresh_changed [OF assms False, of k env] obtain post
    where t: "trace (refresh k (Some d) env v)
        = trace v @ [SetLastText (textFingerprint (getText d)),
                     AppendLine ''Refreshing dependencies'',
                     CacheGet (textFingerprint (getText d))] @ post"
      and one: "length (filter (\<lambda>a. a = RetrieveQuery) post) \<le> 1"
      and l: "lastText (refresh k (Some d) env v) = textFingerprint (getText d)"
      and w: "\<not> working (refresh k (Some d) env v)"
    by blast
  from t one have "roundTrips (refresh k (Some d) env v) \<le> roundTrips v + 1"
    by (simp add: roundTrips_def)
  with l w show ?thesis by simp
qed

lemma refresh_dropped:
  "working v \<or> languageId d \<noteq> ''r'' \<Longrightarrow> refresh k (Some d) env v = v"
  by (auto simp: refresh_def refresh_start_def)

text \<open>
  Two consecutive refresh calls over documents with the same language and the same
  fingerprint. The second call leaves the view as the first left it, trace included:
  it looks nothing up in the cache and sends no query, so the two calls make at most
  one round trip. When the document is an R document and no refresh is in flight, the
  place where the second call returns is the \<open>lastText\<close> short-circuit.
\<close>

lemma refresh_same_fingerprint_one_round_trip:
  assumes "languageId d2 = languageId d1"
    and "textFingerprint (getText d2) = textFingerprint (getText d1)"
  shows "refresh k (Some d2) envb (refresh k (Some d1) enva v) = refresh k (Some d1) enva v
    \<and> trace (refresh k (Some d2) envb (refresh k (Some d1) enva v))
        = trace (refresh k (Some d1) enva v)
    \<and> roundTrips (refresh k (Some d2) envb (refresh k (Some d1) enva v)) \<le> roundTrips v + 1
    \<and> (languageId d1 = ''r'' \<and> \<not> working v \<longrightarrow>
         refresh_start k (Some d2) (refresh k (Some d1) enva v)
           = Returned LastTextShortCircuit (refresh k (Some d1) enva v))"
proof (cases "languageId d1 = ''r'' \<and> \<not> working v")
  case True
  let ?v1 = "refresh k (Some d1) enva v"
  from True refresh_of_r [of v d1 k enva]
  have w: "\<not> working ?v1" and l: "lastText ?v1 = textFingerprint (getText d1)"
    and n: "roundTrips ?v1 \<le> roundTrips v + 1"
    by simp_all
  from True assms(1) have r: "languageId d2 = ''r''" by simp
  from l assms(2) have "textFingerprint (getText d2) = lastText ?v1" by simp
  from refresh_start_unchanged [OF w r this]
  have s: "refresh_start k (Some d2) ?v1 = Returned LastTextShortCircuit ?v1" .
  then have "refresh k (Some d2) envb ?v1 = ?v1" by (simp add: refresh_def)
  with s n show ?thesis by simp
next
  case False
  then have "working v \<or> languageId d1 \<noteq> ''r''" by blast
  then have one: "refresh k (Some d1) enva v = v" by (rule refresh_dropped)
  from False assms(1) have "working v \<or> languageId d2 \<noteq> ''r''" by auto
  then have "refresh k (Some d2) envb v = v" by (rule refresh_dropped)
  with one False show ?thesis by auto
qed

lemma refresh_same_fingerprint_one_round_trip_example:
  "languageId \<lparr> languageId = ''r'', getText = ''x<-1 # c '' \<rparr>
     = languageId \<lparr> languageId = ''r'', getText = ''x <- 1  #c'' \<rparr>
   \<and> textFingerprint (getText \<lparr> languageId = ''r'', getText = ''x<-1 # c '' \<rparr>)
     = textFingerprint (getText \<lparr> languageId = ''r'', getText = ''x <- 1  #c'' \<rparr>)
   \<and> roundTrips
        (refresh \<lparr> emptyDependencies = 0::nat, emptyLocationMap = 0::nat, timings = (\<lambda>r. []) \<rparr>
           (Some \<lparr> languageId = ''r'', getText = ''x<-1 # c '' \<rparr>)
           \<lparr> editorActive = True, reply = QueryResult 3 4, keepOnError = True \<rparr>
           (refresh \<lparr> emptyDependencies = 0, emptyLocationMap = 0, timings = (\<lambda>r. []) \<rparr>
              (Some \<lparr> languageId = ''r'', getText = ''x <- 1  #c'' \<rparr>)
              \<lparr> editorActive = True, reply = QueryResult 1 2, keepOnError = True \<rparr>
              (newFlowrDependencyTreeView
                 \<lparr> emptyDependencies = 0, emptyLocationMap = 0, timings = (\<lambda>r. []) \<rparr>)))
      \<le> roundTrips (newFlowrDependencyTreeView
                 \<lparr> emptyDependencies = 0::nat, emptyLocationMap = 0::nat, timings = (\<lambda>r. []) \<rparr>) + 1
   \<and> refresh_start \<lparr> emptyDependencies = 0::nat, emptyLocationMap = 0::nat, timings = (\<lambda>r. []) \<rparr>
        (Some \<lparr> languageId = ''r'', getText = ''x<-1 # c '' \<rparr>)
        (refresh \<lparr> emptyDependencies = 0, emptyLocationMap = 0, timings = (\<lambda>r. []) \<rparr>
           (Some \<lparr> languageId = ''r'', getText = ''x <- 1  #c'' \<rparr>)
           \<lparr> editorActive = True, reply = QueryResult 1 2, keepOnError = True \<rparr>
           (newFlowrDependencyTreeView
              \<lparr> emptyDependencies = 0, emptyLocationMap = 0, timings = (\<lambda>r. []) \<rparr>))
     = Returned LastTextShortCircuit
        (refresh \<lparr> emptyDependencies = 0, emptyLocationMap = 0, timings = (\<lambda>r. []) \<rparr>
           (Some \<lparr> languageId = ''r'', getText = ''x <- 1  #c'' \<rparr>)
           \<lparr> editorActive = True, reply = QueryResult 1 2, keepOnError = True \<rparr>
           (newFlowrDependencyTreeView
              \<lparr> emptyDependencies = 0, emptyLocationMap = 0, timings = (\<lambda>r. []) \<rparr>))"
proof -
  let ?k = "\<lparr> emptyDependencies = 0::nat, emptyLocationMap = 0::nat, timings = (\<lambda>r. []) \<rparr>"
  let ?d1 = "\<lparr> languageId = ''r'', getText = ''x <- 1  #c'' \<rparr>"
  let ?d2 = "\<lparr> languageId = ''r'', getText = ''x<-1 # c '' \<rparr>"
  have a: "languageId ?d2 = languageId ?d1" by simp
  have b: "textFingerprint (getText ?d2) = textFingerprint (getText ?d1)"
    by (simp add: textFingerprint_def trim_def isWhiteSpace_def isLineTerminator_def)
  have r: "languageId ?d1 = ''r''" by simp
  have w: "\<not> working (newFlowrDependencyTreeView ?k)"
    by (simp add: newFlowrDependencyTreeView_def)
  from a b r w
    refresh_same_fingerprint_one_round_trip [OF a b, where k = ?k
      and envb = "\<lparr> editorActive = True, reply = QueryResult 3 4, keepOnError = True \<rparr>"
      and enva = "\<lparr> editorActive = True, reply = QueryResult 1 2, keepOnError = True \<rparr>"
      and v = "newFlowrDependencyTreeView ?k"]
  show ?thesis by blast
qed

text \<open>A refresh that misses the cache and whose query succeeds.\<close>

lemma get_newRotaryBuffer: "get item (newRotaryBuffer n) = None"
proof -
  have "List.map_filter id (replicate n (None :: 'a option)) = []"
    using map_filter_id_Some [of n "[]"] by simp
  then have "entries (newRotaryBuffer n :: 'a RotaryBuffer) = []"
    by (simp add: entries_def newRotaryBuffer_def)
  then show ?thesis by (simp add: get_def)
qed

lemma get_after_first_push:
  "0 < n \<Longrightarrow> get item (push x (newRotaryBuffer n)) = (if item x then Some x else None)"
  using entries_after_pushes [of n "[x]"] by (simp add: get_def)

lemma refresh_miss_result:
  assumes "\<not> working v" and "languageId d = ''r''" and "textFingerprint (getText d) \<noteq> lastText v"
    and "get (\<lambda>e. fst e = textFingerprint (getText d)) (textBuffer v) = None"
    and "editorActive env" and "reply env = QueryResult a b"
  shows "roundTrips (refresh k (Some d) env v) = roundTrips v + 1
    \<and> textBuffer (refresh k (Some d) env v)
        = push (textFingerprint (getText d), \<lparr> dep = a, loc = b \<rparr>) (textBuffer v)
    \<and> lastText (refresh k (Some d) env v) = textFingerprint (getText d)
    \<and> \<not> working (refresh k (Some d) env v)"
proof -
  let ?text = "textFingerprint (getText d)"
  let ?v4 = "did [SetLastText ?text, AppendLine ''Refreshing dependencies'', CacheGet ?text]
               (v\<lparr>lastText := ?text, working := True\<rparr>)"
  from refresh_start_changed [OF assms(1-3), of k] assms(4)
  have r: "refresh k (Some d) env v = refresh_finish k env ?text ?v4"
    by (simp add: refresh_def Let_def)
  from assms(5,6) show ?thesis unfolding r
    by (simp add: refresh_finish_def getDependenciesForActiveFile_def roundTrips_def Let_def)
qed

text \<open>
  C4: two consecutive refresh calls over a document whose normalized text is identical
  can make two round trips. The first call sees the document of the lines \<open>x <- 1\<close>
  and \<open>y\<close>, the second the same document with an indented comment line between them.
  The text without white space and comment lines is the same for both, but the
  fingerprints differ (the indented comment stays in the second), so the second call
  passes the \<open>lastText\<close> comparison, misses the cache and sends a second query.
\<close>

theorem refresh_twice_two_round_trips:
  "spec_normalizedText (getText \<lparr> languageId = ''r'', getText = ''x <- 1\<newline>  # c\<newline>y'' \<rparr>)
     = spec_normalizedText (getText \<lparr> languageId = ''r'', getText = ''x <- 1\<newline>y'' \<rparr>)
   \<and> textFingerprint (getText \<lparr> languageId = ''r'', getText = ''x <- 1\<newline>y'' \<rparr>) = ''x<-1y''
   \<and> textFingerprint (getText \<lparr> languageId = ''r'', getText = ''x <- 1\<newline>  # c\<newline>y'' \<rparr>)
      = ''x<-1#cy''
   \<and> roundTrips (newFlowrDependencyTreeView
        \<lparr> emptyDependencies = 0::nat, emptyLocationMap = 0::nat, timings = (\<lambda>r. []) \<rparr>) = 0
   \<and> roundTrips
        (refresh \<lparr> emptyDependencies = 0::nat, emptyLocationMap = 0::nat, timings = (\<lambda>r. []) \<rparr>
           (Some \<lparr> languageId = ''r'', getText = ''x <- 1\<newline>y'' \<rparr>)
           \<lparr> editorActive = True, reply = QueryResult 1 2, keepOnError = True \<rparr>
           (newFlowrDependencyTreeView
              \<lparr> emptyDependencies = 0, emptyLocationMap = 0, timings = (\<lambda>r. []) \<rparr>))
      = 1
   \<and> roundTrips
        (refresh \<lparr> emptyDependencies = 0::nat, emptyLocationMap = 0::nat, timings = (\<lambda>r. []) \<rparr>
           (Some \<lparr> languageId = ''r'', getText = ''x <- 1\<newline>  # c\<newline>y'' \<rparr>)
           \<lparr> editorActive = True, reply = QueryResult 3 4, keepOnError = True \<rparr>
           (refresh \<lparr> emptyDependencies = 0, emptyLocationMap = 0, timings = (\<lambda>r. []) \<rparr>
              (Some \<lparr> languageId = ''r'', getText = ''x <- 1\<newline>y'' \<rparr>)
              \<lparr> editorActive = True, reply = QueryResult 1 2, keepOnError = True \<rparr>
              (newFlowrDependencyTreeView
                 \<lparr> emptyDependencies = 0, emptyLocationMap = 0, timings = (\<lambda>r. []) \<rparr>)))
      = 2"
proof -
  let ?k = "\<lparr> emptyDependencies = 0::nat, emptyLocationMap = 0::nat, timings = (\<lambda>r. []) \<rparr>"
  let ?d1 = "\<lparr> languageId = ''r'', getText = ''x <- 1\<newline>y'' \<rparr>"
  let ?d2 = "\<lparr> languageId = ''r'', getText = ''x <- 1\<newline>  # c\<newline>y'' \<rparr>"
  let ?e1 = "\<lparr> editorActive = True, reply = QueryResult 1 2 :: (nat, nat) reply, keepOnError = True \<rparr>"
  let ?e2 = "\<lparr> editorActive = True, reply = QueryResult 3 4 :: (nat, nat) reply, keepOnError = True \<rparr>"
  let ?v0 = "newFlowrDependencyTreeView ?k"
  let ?v1 = "refresh ?k (Some ?d1) ?e1 ?v0"
  have n: "spec_normalizedText (getText ?d2) = spec_normalizedText (getText ?d1)"
    by (simp add: spec_normalizedText_def isCommentLine_def isWhiteSpace_def isLineTerminator_def)
  have f1: "textFingerprint (getText ?d1) = ''x<-1y''"
    by (simp add: textFingerprint_def trim_def isWhiteSpace_def isLineTerminator_def)
  have f2: "textFingerprint (getText ?d2) = ''x<-1#cy''"
    by (simp add: textFingerprint_def trim_def isWhiteSpace_def isLineTerminator_def)
  have z: "roundTrips ?v0 = 0"
    by (simp add: roundTrips_def newFlowrDependencyTreeView_def)
  have w0: "\<not> working ?v0" and b0: "textBuffer ?v0 = newRotaryBuffer 5"
    and l0: "lastText ?v0 = []"
    by (simp_all add: newFlowrDependencyTreeView_def)
  have r1: "languageId ?d1 = ''r''" and r2: "languageId ?d2 = ''r''" by simp_all
  have c1: "textFingerprint (getText ?d1) \<noteq> lastText ?v0"
    unfolding f1 l0 by simp
  have g1: "get (\<lambda>e. fst e = textFingerprint (getText ?d1)) (textBuffer ?v0) = None"
    unfolding b0 by (rule get_newRotaryBuffer)
  have a1: "editorActive ?e1" and q1: "reply ?e1 = QueryResult 1 2" by simp_all
  from refresh_miss_result [OF w0 r1 c1 g1 a1 q1, of ?k]
  have t1: "roundTrips ?v1 = roundTrips ?v0 + 1"
    and b1: "textBuffer ?v1 = push (textFingerprint (getText ?d1), \<lparr> dep = 1, loc = 2 \<rparr>) (textBuffer ?v0)"
    and l1: "lastText ?v1 = textFingerprint (getText ?d1)"
    and w1: "\<not> working ?v1"
    by blast+
  have c2: "textFingerprint (getText ?d2) \<noteq> lastText ?v1"
    unfolding l1 f1 f2 by simp
  have g2: "get (\<lambda>e. fst e = textFingerprint (getText ?d2)) (textBuffer ?v1) = None"
    unfolding b1 b0 f1 f2 by (simp add: get_after_first_push)
  have a2: "editorActive ?e2" and q2: "reply ?e2 = QueryResult 3 4" by simp_all
  from refresh_miss_result [OF w1 r2 c2 g2 a2 q2, of ?k]
  have t2: "roundTrips (refresh ?k (Some ?d2) ?e2 ?v1) = roundTrips ?v1 + 1"
    by blast
  from t1 z have one: "roundTrips ?v1 = 1" by simp
  with t2 have two: "roundTrips (refresh ?k (Some ?d2) ?e2 ?v1) = 2" by simp
  from n f1 f2 z one two show ?thesis by blast
qed

text \<open>
  C10: a refresh that passes the fingerprint comparison first assigns the new
  fingerprint to \<open>lastText\<close>; the cache lookup comes after it and the query, if one is
  sent, after that. If the query then fails, nothing is cached, \<open>lastText\<close> keeps the
  new fingerprint, and the next refresh of the unchanged document returns at the
  short-circuit and sends no query.
\<close>

theorem refresh_sets_lastText_first:
  assumes "\<not> working v" and "languageId d = ''r''" and "textFingerprint (getText d) \<noteq> lastText v"
  shows "(\<exists>post. trace (refresh k (Some d) env v)
          = trace v @ [SetLastText (textFingerprint (getText d)),
                       AppendLine ''Refreshing dependencies'',
                       CacheGet (textFingerprint (getText d))] @ post)
    \<and> (\<forall>v' text. refresh_start k (Some d) v = Suspended v' text \<longrightarrow>
          lastText v' = textFingerprint (getText d) \<and> RetrieveQuery \<notin> set (drop (length (trace v)) (trace v')))
    \<and> lastText (refresh k (Some d) env v) = textFingerprint (getText d)
    \<and> (editorActive env \<and> (\<forall>r l. reply env \<noteq> QueryResult r l) \<longrightarrow>
          textBuffer (refresh k (Some d) env v) = textBuffer v
          \<and> refresh_start k (Some d) (refresh k (Some d) env v)
              = Returned LastTextShortCircuit (refresh k (Some d) env v)
          \<and> roundTrips (refresh k (Some d) envb (refresh k (Some d) env v))
              = roundTrips (refresh k (Some d) env v))"
proof -
  let ?text = "textFingerprint (getText d)"
  let ?v1 = "refresh k (Some d) env v"
  note start = refresh_start_changed [OF assms, of k]
  from refresh_changed [OF assms, of k env]
  have tr: "\<exists>post. trace ?v1 = trace v @ [SetLastText ?text,
      AppendLine ''Refreshing dependencies'', CacheGet ?text] @ post"
    and l: "lastText ?v1 = ?text" and w: "\<not> working ?v1"
    by blast+
  have susp: "\<forall>v' text. refresh_start k (Some d) v = Suspended v' text \<longrightarrow>
      lastText v' = ?text \<and> RetrieveQuery \<notin> set (drop (length (trace v)) (trace v'))"
    unfolding start by (auto simp: Let_def split: option.splits)
  from l have same: "?text = lastText ?v1" by simp
  from refresh_start_unchanged [OF w assms(2) same]
  have short: "refresh_start k (Some d) ?v1 = Returned LastTextShortCircuit ?v1" .
  then have again: "refresh k (Some d) envb ?v1 = ?v1" by (simp add: refresh_def)
  have cache: "textBuffer ?v1 = textBuffer v"
    if f: "editorActive env" "\<forall>r l. reply env \<noteq> QueryResult r l"
  proof (cases "get (\<lambda>e. fst e = ?text) (textBuffer v)")
    case None
    with start show ?thesis
      by (simp add: refresh_def Let_def refresh_finish_failure_keeps_cache [OF f])
  next
    case (Some has)
    with start show ?thesis by (simp add: refresh_def Let_def)
  qed
  from tr susp l cache short again show ?thesis by simp
qed

theorem refresh_sets_lastText_first_witness:
  "\<not> working (newFlowrDependencyTreeView
        \<lparr> emptyDependencies = 0::nat, emptyLocationMap = 0::nat, timings = (\<lambda>r. []) \<rparr>)
   \<and> languageId \<lparr> languageId = ''r'', getText = ''x <- 1'' \<rparr> = ''r''
   \<and> textFingerprint (getText \<lparr> languageId = ''r'', getText = ''x <- 1'' \<rparr>)
       \<noteq> lastText (newFlowrDependencyTreeView
            \<lparr> emptyDependencies = 0::nat, emptyLocationMap = 0::nat, timings = (\<lambda>r. []) \<rparr>)
   \<and> editorActive \<lparr> editorActive = True, reply = QueryError :: (nat, nat) reply, keepOnError = True \<rparr>
   \<and> refresh_start \<lparr> emptyDependencies = 0::nat, emptyLocationMap = 0::nat, timings = (\<lambda>r. []) \<rparr>
        (Some \<lparr> languageId = ''r'', getText = ''x <- 1'' \<rparr>)
        (refresh \<lparr> emptyDependencies = 0, emptyLocationMap = 0, timings = (\<lambda>r. []) \<rparr>
           (Some \<lparr> languageId = ''r'', getText = ''x <- 1'' \<rparr>)
           \<lparr> editorActive = True, reply = QueryError, keepOnError = True \<rparr>
           (newFlowrDependencyTreeView
              \<lparr> emptyDependencies = 0, emptyLocationMap = 0, timings = (\<lambda>r. []) \<rparr>))
     = Returned LastTextShortCircuit
        (refresh \<lparr> emptyDependencies = 0, emptyLocationMap = 0, timings = (\<lambda>r. []) \<rparr>
           (Some \<lparr> languageId = ''r'', getText = ''x <- 1'' \<rparr>)
           \<lparr> editorActive = True, reply = QueryError, keepOnError = True \<rparr>
           (newFlowrDependencyTreeView
              \<lparr> emptyDependencies = 0, emptyLocationMap = 0, timings = (\<lambda>r. []) \<rparr>))"
proof -
  let ?k = "\<lparr> emptyDependencies = 0::nat, emptyLocationMap = 0::nat, timings = (\<lambda>r. []) \<rparr>"
  let ?d = "\<lparr> languageId = ''r'', getText = ''x <- 1'' \<rparr>"
  let ?env = "\<lparr> editorActive = True, reply = QueryError :: (nat, nat) reply, keepOnError = True \<rparr>"
  have w: "\<not> working (newFlowrDependencyTreeView ?k)"
    by (simp add: newFlowrDependencyTreeView_def)
  have r: "languageId ?d = ''r''" by simp
  have c: "textFingerprint (getText ?d) \<noteq> lastText (newFlowrDependencyTreeView ?k)"
    by (simp add: textFingerprint_def trim_def isWhiteSpace_def isLineTerminator_def
        newFlowrDependencyTreeView_def)
  have e: "editorActive ?env" by simp
  have f: "\<forall>r l. reply ?env \<noteq> QueryResult r l" by simp
  from w r c e f refresh_sets_lastText_first [OF w r c, where env = ?env and envb = ?env]
  show ?thesis by blast
qed

text \<open>
  While an execution of \<open>refresh\<close> is suspended the guard is set, and only then; so a
  second execution never gets past the guard.
\<close>

lemma occur_keeps_guard:
  assumes "length (inFlight st) \<le> 1" and "working (view st) \<longleftrightarrow> inFlight st \<noteq> []"
  shows "length (inFlight (occur k o' st)) \<le> 1
    \<and> (working (view (occur k o' st)) \<longleftrightarrow> inFlight (occur k o' st) \<noteq> [])"
proof (cases o')
  case (Trigger ed)
  show ?thesis
  proof (cases "refresh_start k ed (view st)")
    case (Returned x v')
    show ?thesis
    proof (cases "working (view st)")
      case True
      with Returned have "v' = view st" by (simp add: refresh_start_working)
      with Trigger Returned assms show ?thesis by simp
    next
      case False
      from refresh_start_Returned [OF False Returned] False Trigger Returned assms
      show ?thesis by simp
    qed
  next
    case (Suspended v' t)
    from refresh_start_Suspended [OF Suspended] assms Trigger Suspended
    show ?thesis by simp
  qed
next
  case (Settle i env)
  show ?thesis
  proof (cases "i < length (inFlight st)")
    case True
    with assms(1) have "i = 0" and "length (inFlight st) = Suc 0" by simp_all
    then obtain t where "inFlight st = [t]" and "i = 0"
      by (cases "inFlight st") simp_all
    with Settle show ?thesis by simp
  next
    case False
    with Settle assms show ?thesis by simp
  qed
qed

lemma occurAll_keeps_guard:
  "length (inFlight st) \<le> 1 \<Longrightarrow> (working (view st) \<longleftrightarrow> inFlight st \<noteq> []) \<Longrightarrow>
     length (inFlight (occurAll k os st)) \<le> 1
     \<and> (working (view (occurAll k os st)) \<longleftrightarrow> inFlight (occurAll k os st) \<noteq> [])"
proof (induction os arbitrary: st)
  case Nil
  then show ?case by (simp add: occurAll_def)
next
  case (Cons o' os)
  from occur_keeps_guard [OF Cons.prems, of k o']
  have a: "length (inFlight (occur k o' st)) \<le> 1"
    and b: "working (view (occur k o' st)) \<longleftrightarrow> inFlight (occur k o' st) \<noteq> []"
    by simp_all
  from Cons.IH [OF a b] show ?case by (simp add: occurAll_def)
qed

text \<open>
  C7: in every state the view reaches from its creation, through any sequence of
  refresh triggers and of settlements of the suspended execution's query, at most
  one execution of \<open>refresh\<close> is in flight, and the guard \<open>working\<close> is set exactly
  while one is. A refresh that arrives while one is in flight returns at the guard and
  changes nothing (it is not queued); when the execution in flight finishes, the
  guard is cleared and nothing is in flight.
\<close>

theorem refresh_not_reentrant:
  "length (inFlight (occurAll k os (newScheduler k))) \<le> 1
   \<and> (working (view (occurAll k os (newScheduler k)))
        \<longleftrightarrow> inFlight (occurAll k os (newScheduler k)) \<noteq> [])
   \<and> (inFlight (occurAll k os (newScheduler k)) \<noteq> [] \<longrightarrow>
        refresh_start k ed (view (occurAll k os (newScheduler k)))
          = Returned WorkingGuard (view (occurAll k os (newScheduler k)))
        \<and> occur k (Trigger ed) (occurAll k os (newScheduler k)) = occurAll k os (newScheduler k))
   \<and> (i < length (inFlight (occurAll k os (newScheduler k))) \<longrightarrow>
        \<not> working (view (occur k (Settle i env) (occurAll k os (newScheduler k))))
        \<and> inFlight (occur k (Settle i env) (occurAll k os (newScheduler k))) = [])"
proof -
  let ?st = "occurAll k os (newScheduler k)"
  have "length (inFlight (newScheduler k)) \<le> 1"
    and "working (view (newScheduler k)) \<longleftrightarrow> inFlight (newScheduler k) \<noteq> []"
    by (simp_all add: newScheduler_def newFlowrDependencyTreeView_def)
  from occurAll_keeps_guard [OF this, of k os]
  have n: "length (inFlight ?st) \<le> 1" and g: "working (view ?st) \<longleftrightarrow> inFlight ?st \<noteq> []"
    by simp_all
  have d: "refresh_start k ed (view ?st) = Returned WorkingGuard (view ?st)
      \<and> occur k (Trigger ed) ?st = ?st" if "inFlight ?st \<noteq> []"
  proof -
    from that g have "working (view ?st)" by simp
    then have "refresh_start k ed (view ?st) = Returned WorkingGuard (view ?st)"
      by (rule refresh_start_working)
    then show ?thesis by simp
  qed
  have f: "\<not> working (view (occur k (Settle i env) ?st))
      \<and> inFlight (occur k (Settle i env) ?st) = []" if "i < length (inFlight ?st)"
  proof -
    from that n have "i = 0" and "length (inFlight ?st) = Suc 0" by simp_all
    then obtain t where "inFlight ?st = [t]" and "i = 0"
      by (cases "inFlight ?st") simp_all
    then show ?thesis by simp
  qed
  from n g d f show ?thesis by blast
qed

theorem refresh_not_reentrant_witness:
  "inFlight (occurAll \<lparr> emptyDependencies = 0::nat, emptyLocationMap = 0::nat, timings = (\<lambda>r. []) \<rparr>
       [Trigger (Some \<lparr> languageId = ''r'', getText = ''x <- 1'' \<rparr>)]
       (newScheduler \<lparr> emptyDependencies = 0, emptyLocationMap = 0, timings = (\<lambda>r. []) \<rparr>))
     = [''x<-1'']
   \<and> occur \<lparr> emptyDependencies = 0::nat, emptyLocationMap = 0::nat, timings = (\<lambda>r. []) \<rparr>
        (Trigger (Some \<lparr> languageId = ''r'', getText = ''y'' \<rparr>))
        (occurAll \<lparr> emptyDependencies = 0, emptyLocationMap = 0, timings = (\<lambda>r. []) \<rparr>
           [Trigger (Some \<lparr> languageId = ''r'', getText = ''x <- 1'' \<rparr>)]
           (newScheduler \<lparr> emptyDependencies = 0, emptyLocationMap = 0, timings = (\<lambda>r. []) \<rparr>))
     = occurAll \<lparr> emptyDependencies = 0, emptyLocationMap = 0, timings = (\<lambda>r. []) \<rparr>
           [Trigger (Some \<lparr> languageId = ''r'', getText = ''x <- 1'' \<rparr>)]
           (newScheduler \<lparr> emptyDependencies = 0, emptyLocationMap = 0, timings = (\<lambda>r. []) \<rparr>)"
proof -
  let ?k = "\<lparr> emptyDependencies = 0::nat, emptyLocationMap = 0::nat, timings = (\<lambda>r. []) \<rparr>"
  let ?st = "occurAll ?k [Trigger (Some \<lparr> languageId = ''r'', getText = ''x <- 1'' \<rparr>)] (newScheduler ?k)"
  have a: "inFlight ?st = [''x<-1'']"
    by (simp add: occurAll_def newScheduler_def newFlowrDependencyTreeView_def refresh_start_def
        textFingerprint_def trim_def isWhiteSpace_def isLineTerminator_def Let_def did_def
        get_def entries_def newRotaryBuffer_def List.map_filter_def)
  then have b: "inFlight ?st \<noteq> []" by simp
  from a b refresh_not_reentrant [where k = ?k
      and os = "[Trigger (Some \<lparr> languageId = ''r'', getText = ''x <- 1'' \<rparr>)]"
      and ed = "Some \<lparr> languageId = ''r'', getText = ''y'' \<rparr>"]
  show ?thesis by blast
qed

section \<open>The fingerprint\<close>

lemma replaceMatches_no_whitespace:
  "c \<in> set (replaceMatches bol s) \<Longrightarrow> \<not> isWhiteSpace c"
  by (induction bol s rule: replaceMatches.induct) (auto split: if_splits)

lemma textFingerprint_no_whitespace:
  "c \<in> set (textFingerprint s) \<Longrightarrow> \<not> isWhiteSpace c"
  unfolding textFingerprint_def by (rule replaceMatches_no_whitespace)

text \<open>
  C6: the fingerprint is not the text without white space and comment lines. In the
  document of the three lines \<open>x <- 1\<close>, an indented comment, and \<open>y\<close>, the white space
  before the \<open>#\<close> is matched character by character by the first alternative of the
  regular expression; at the \<open>#\<close> the position no longer starts a line, the second
  alternative fails, and the comment stays in the fingerprint. So the document and
  the same document without its comment line have different fingerprints, where the
  normalization the claim describes gives the same text for both. A comment line
  that starts at the first column is stripped.
\<close>

theorem textFingerprint_keeps_indented_comment:
  "textFingerprint ''x <- 1\<newline>  # c\<newline>y'' = ''x<-1#cy''
   \<and> spec_normalizedText ''x <- 1\<newline>  # c\<newline>y'' = ''x<-1y''
   \<and> textFingerprint ''x <- 1\<newline>y'' = ''x<-1y''
   \<and> spec_normalizedText ''x <- 1\<newline>y'' = ''x<-1y''
   \<and> textFingerprint ''x <- 1\<newline># c\<newline>y'' = ''x<-1y''"
  by (simp add: textFingerprint_def spec_normalizedText_def trim_def isCommentLine_def
      isWhiteSpace_def isLineTerminator_def)

end
